theory Spec2Isabelle
  imports Complex_Main "HOL-Library.Log_Nat"
begin

section \<open>Dense arrays\<close>

text \<open>
  A numpy array is its shape together with its elements in row-major (C) order.
  Elements are real numbers, so NaN, infinities and signed zero are outside the model.
  Arithmetic is exact in the definitions that follow; the rounding of float64 enters in
  the section on float64 arithmetic, where the smoother is defined a second time with
  its subtraction rounded.
\<close>

record ndarray =
  shape :: "nat list"
  data :: "real list"

text \<open>The invariant every numpy array has: as many elements as its shape says.\<close>

definition wf_array :: "ndarray \<Rightarrow> bool" where
  "wf_array a \<longleftrightarrow> length (data a) = prod_list (shape a)"

text \<open>
  The exceptions of the module. Those raised inside numpy or tensorflow carry an
  abbreviated message; the two messages of \<open>main\<close> and the one of \<open>smooth\<close> are the
  source's.
\<close>

datatype error =
    AssertionError
  | NotImplementedError string
  | ValueError string
  | IndexError string

definition np_zeros :: "nat list \<Rightarrow> ndarray" where
  "np_zeros shp = \<lparr>shape = shp, data = replicate (prod_list shp) 0\<rparr>"

definition np_ones :: "nat list \<Rightarrow> ndarray" where
  "np_ones shp = \<lparr>shape = shp, data = replicate (prod_list shp) 1\<rparr>"

text \<open>
  \<open>np.average\<close> of all elements. On an empty array numpy yields NaN; the quotient below
  is 0 there.
\<close>

definition np_average :: "ndarray \<Rightarrow> real" where
  "np_average a = sum_list (data a) / real (length (data a))"

text \<open>
  \<open>np.argmax\<close> scans left to right and moves to a later index only on a strictly
  larger value; an empty sequence raises.
\<close>

fun argmax_scan :: "nat \<Rightarrow> real \<Rightarrow> nat \<Rightarrow> real list \<Rightarrow> nat" where
  "argmax_scan best_i best_v i [] = best_i"
| "argmax_scan best_i best_v i (v # vs) =
     (if best_v < v then argmax_scan i v (Suc i) vs
      else argmax_scan best_i best_v (Suc i) vs)"

definition np_argmax :: "real list \<Rightarrow> error + nat" where
  "np_argmax vs =
     (case vs of
        [] \<Rightarrow> Inl (ValueError ''attempt to get argmax of an empty sequence'')
      | v # rest \<Rightarrow> Inr (argmax_scan 0 v 1 rest))"

text \<open>\<open>np.round\<close> with no decimals: to the nearest integer, a tie to the even one.\<close>

definition rint :: "real \<Rightarrow> real" where
  "rint v =
     (let f = \<lfloor>v\<rfloor>; d = v - of_int f
      in if d < 1 / 2 then of_int f
         else if 1 / 2 < d then of_int (f + 1)
         else if even f then of_int f
         else of_int (f + 1))"

definition np_round :: "ndarray \<Rightarrow> ndarray" where
  "np_round a = a\<lparr>data := map rint (data a)\<rparr>"

text \<open>\<open>a[0]\<close>: the first entry along the first axis.\<close>

definition getitem0 :: "ndarray \<Rightarrow> error + ndarray" where
  "getitem0 a =
     (case shape a of
        [] \<Rightarrow> Inl (IndexError ''too many indices for array'')
      | d # rest \<Rightarrow>
          if d = 0 then Inl (IndexError ''index 0 is out of bounds'')
          else Inr \<lparr>shape = rest, data = take (prod_list rest) (data a)\<rparr>)"

text \<open>
  \<open>a[..., phase]\<close> for an index taken from \<open>range(a.shape[-1])\<close>: the elements at
  positions \<open>i * P + phase\<close>, where \<open>P\<close> is the extent of the last axis.
\<close>

definition getitem_last :: "ndarray \<Rightarrow> nat \<Rightarrow> ndarray" where
  "getitem_last a phase =
     \<lparr>shape = butlast (shape a),
      data = map (\<lambda>i. data a ! (i * last (shape a) + phase))
               [0..<prod_list (butlast (shape a))]\<rparr>"

text \<open>
  \<open>a[..., phase] = v\<close>. Only a value of exactly the slice's shape is accepted here;
  numpy would also broadcast a smaller one.
\<close>

definition setitem_last :: "ndarray \<Rightarrow> nat \<Rightarrow> ndarray \<Rightarrow> error + ndarray" where
  "setitem_last a phase v =
     (if shape v = butlast (shape a) then
        Inr (a\<lparr>data := map (\<lambda>k. if k mod last (shape a) = phase
                                   then data v ! (k div last (shape a))
                                   else data a ! k)
                         [0..<length (data a)]\<rparr>)
      else Inl (ValueError ''could not broadcast input array''))"

text \<open>\<open>a -= b\<close> on arrays of one shape (again without broadcasting).\<close>

definition isub :: "ndarray \<Rightarrow> ndarray \<Rightarrow> error + ndarray" where
  "isub a b =
     (if shape b = shape a then
        Inr (a\<lparr>data := map (\<lambda>(u, w). u - w) (zip (data a) (data b))\<rparr>)
      else Inl (ValueError ''operands could not be broadcast together''))"

definition reshape :: "ndarray \<Rightarrow> nat list \<Rightarrow> error + ndarray" where
  "reshape a shp =
     (if prod_list shp = length (data a) then Inr (a\<lparr>shape := shp\<rparr>)
      else Inl (ValueError ''cannot reshape array''))"

text \<open>\<open>x.assign(value)\<close> on the handle the accessor yields: the shapes must agree.\<close>

definition assign :: "ndarray \<Rightarrow> ndarray \<Rightarrow> error + ndarray" where
  "assign x v =
     (if shape v = shape x then Inr v
      else Inl (ValueError ''shapes are incompatible''))"

section \<open>The spatial filter\<close>

datatype boundary_mode = Reflect | Constant | Nearest | Mirror | Wrap

text \<open>
  \<open>scipy.ndimage.gaussian_filter(input, sigma, mode=...)\<close> is library code. It is a
  parameter of every function that reaches it: the input, the standard deviation (one
  number, shared by all axes) and the boundary mode.
\<close>

type_synonym gaussian_filter = "ndarray \<Rightarrow> real \<Rightarrow> boundary_mode \<Rightarrow> ndarray"

definition gaussian_smoothing :: "gaussian_filter \<Rightarrow> ndarray \<Rightarrow> real \<Rightarrow> ndarray" where
  "gaussian_smoothing gf microstructure strength =
     np_round (gf microstructure strength Wrap)"

text \<open>What the library promises of its filter: an array of the input's shape.\<close>

definition filter_ok :: "gaussian_filter \<Rightarrow> bool" where
  "filter_ok gf \<longleftrightarrow>
     (\<forall>a sigma mode. wf_array a \<longrightarrow>
        wf_array (gf a sigma mode) \<and> shape (gf a sigma mode) = shape a)"

text \<open>A blur of the zero field is the zero field.\<close>

definition filter_zero :: "gaussian_filter \<Rightarrow> bool" where
  "filter_zero gf \<longleftrightarrow> (\<forall>shp sigma mode. gf (np_zeros shp) sigma mode = np_zeros shp)"

text \<open>
  The same promise for a filter in the form \<open>smooth\<close> hands on: a function of the field and
  the strength.
\<close>

definition filter_wf :: "(ndarray \<Rightarrow> real \<Rightarrow> ndarray) \<Rightarrow> bool" where
  "filter_wf f \<longleftrightarrow>
     (\<forall>a s. wf_array a \<longrightarrow> wf_array (f a s) \<and> shape (f a s) = shape a)"

text \<open>
  Two concrete filters for evaluating the functions on examples: the filter that
  changes nothing, and a periodic three-point blur with weights 1/4, 1/2, 1/4 over the
  elements in storage order.
\<close>

definition identity_filter :: gaussian_filter where
  "identity_filter a sigma mode = a"

definition wrap_blur3 :: gaussian_filter where
  "wrap_blur3 a sigma mode =
     a\<lparr>data := map (\<lambda>i. (data a ! ((i + length (data a) - 1) mod length (data a))
                          + 2 * data a ! i
                          + data a ! (Suc i mod length (data a))) / 4)
                   [0..<length (data a)]\<rparr>"

subsection \<open>The library's Gaussian filter\<close>

text \<open>
  Modelled from the spec: the Spatial Filter of the specification, which the source takes
  from the library as \<open>scipy.ndimage.gaussian_filter\<close>. The library filters one axis
  after the other, each with the same one-dimensional kernel, and reads beyond the ends
  of an axis as the boundary mode says. The definitions below follow it over the reals.
\<close>

text \<open>
  Modelled from the spec: the boundary modes. For a coordinate \<open>c\<close> that may lie outside
  an axis of extent \<open>n\<close>, the coordinate that is read instead; the mode \<open>constant\<close> reads
  the value 0 outside. With \<open>wrap\<close> the axis is periodic.
\<close>

definition extend_index :: "boundary_mode \<Rightarrow> nat \<Rightarrow> int \<Rightarrow> nat option" where
  "extend_index mode n c =
     (case mode of
        Wrap \<Rightarrow> Some (nat (c mod int n))
      | Nearest \<Rightarrow> Some (nat (max 0 (min (int n - 1) c)))
      | Reflect \<Rightarrow>
          (let m = c mod (2 * int n)
           in Some (nat (if m < int n then m else 2 * int n - 1 - m)))
      | Mirror \<Rightarrow>
          (if n = 1 then Some 0
           else let m = c mod (2 * int n - 2)
                in Some (nat (if m < int n then m else 2 * int n - 2 - m)))
      | Constant \<Rightarrow> (if 0 \<le> c \<and> c < int n then Some (nat c) else None))"

text \<open>
  Modelled from the spec: the kernel. It is cut off at four standard deviations, the
  library's default, and its weights are the Gaussian of standard deviation \<open>sigma\<close>
  at the integer offsets, divided by their sum.
\<close>

definition kernel_radius :: "real \<Rightarrow> nat" where
  "kernel_radius sigma = nat \<lfloor>4 * sigma + 1 / 2\<rfloor>"

definition gaussian_kernel1d :: "real \<Rightarrow> int \<Rightarrow> real" where
  "gaussian_kernel1d sigma d =
     exp (- (of_int d)\<^sup>2 / (2 * sigma\<^sup>2))
       / (\<Sum>e = - int (kernel_radius sigma)..int (kernel_radius sigma).
            exp (- (of_int e)\<^sup>2 / (2 * sigma\<^sup>2)))"

text \<open>
  Modelled from the spec: the filter along one axis. In row-major order the element at
  position \<open>j\<close> has the coordinate \<open>(j div s) mod n\<close> along the axis, where \<open>n\<close> is the
  extent of the axis and \<open>s\<close> the number of elements per step along it; its new value is
  the weighted sum of the elements whose coordinate along the axis is offset by \<open>d\<close>.
\<close>

definition correlate1d_at :: "boundary_mode \<Rightarrow> real \<Rightarrow> ndarray \<Rightarrow> nat \<Rightarrow> nat \<Rightarrow> real" where
  "correlate1d_at mode sigma a axis j =
     (let s = prod_list (drop (Suc axis) (shape a));
          n = shape a ! axis;
          c = (j div s) mod n
      in \<Sum>d = - int (kernel_radius sigma)..int (kernel_radius sigma).
           gaussian_kernel1d sigma d *
             (case extend_index mode n (int c + d) of
                None \<Rightarrow> 0
              | Some c' \<Rightarrow> data a ! (j - c * s + c' * s)))"

definition gaussian_filter1d :: "ndarray \<Rightarrow> real \<Rightarrow> nat \<Rightarrow> boundary_mode \<Rightarrow> ndarray" where
  "gaussian_filter1d a sigma axis mode =
     a\<lparr>data := map (correlate1d_at mode sigma a axis) [0..<length (data a)]\<rparr>"

text \<open>
  Modelled from the spec: the filter itself, one pass per axis, all with the one
  \<open>sigma\<close> the source passes.
\<close>

definition gaussian_filter :: gaussian_filter where
  "gaussian_filter a sigma mode =
     fold (\<lambda>axis b. gaussian_filter1d b sigma axis mode) [0..<length (shape a)] a"

text \<open>The coordinate \<open>c\<close> moved by \<open>d\<close> on a periodic axis of extent \<open>n\<close>.\<close>

definition wrap_index :: "nat \<Rightarrow> nat \<Rightarrow> int \<Rightarrow> nat" where
  "wrap_index n c d = nat ((int c + d) mod int n)"

section \<open>The microstructure\<close>

text \<open>
  Modelled from the spec: the class \<open>Microstructure\<close> of \<open>mcrpy.src.Microstructure\<close>,
  which the module imports. Of it the smoother uses the flag \<open>has_phases\<close>, the
  attribute \<open>spatial_shape\<close> and the multiphase encoding behind the scoped accessor. The
  source reads the encoding as \<open>x.numpy()[0]\<close> and reshapes its result to
  \<open>x.numpy().shape\<close>, so the encoding has one leading axis of extent 1, then the
  spatial axes, then the phase axis.
\<close>

record microstructure =
  has_phases :: bool
  spatial_shape :: "nat list"
  encoding :: ndarray

definition num_phases :: "microstructure \<Rightarrow> nat" where
  "num_phases ms = last (shape (encoding ms))"

definition wf_ms :: "microstructure \<Rightarrow> bool" where
  "wf_ms ms \<longleftrightarrow>
     wf_array (encoding ms) \<and>
     shape (encoding ms) = 1 # spatial_shape ms @ [num_phases ms]"

text \<open>
  Modelled from the spec: the scoped accessor \<open>use_multiphase_encoding\<close> of the class
  \<open>Microstructure\<close>. It yields the encoding for the duration of a block and writes the
  handle's content back when the block is left. The block is a function from the
  yielded content to the content it leaves behind; a block that raises has assigned
  nothing, and the exception passes through.
\<close>

definition use_multiphase_encoding ::
  "microstructure \<Rightarrow> (ndarray \<Rightarrow> error + ndarray) \<Rightarrow> (error + unit) \<times> microstructure" where
  "use_multiphase_encoding ms body =
     (case body (encoding ms) of
        Inl e \<Rightarrow> (Inl e, ms)
      | Inr x' \<Rightarrow> (Inr (), ms\<lparr>encoding := x'\<rparr>))"

section \<open>The multiphase smoother\<close>

text \<open>
  The loop over the phases, on the pair of \<open>ms_smoothed\<close> and
  \<open>largest_indicator_function\<close>.
\<close>

fun smooth_loop ::
  "(ndarray \<Rightarrow> real \<Rightarrow> ndarray) \<Rightarrow> real \<Rightarrow> ndarray \<Rightarrow> nat \<Rightarrow> nat list
     \<Rightarrow> ndarray \<times> ndarray \<Rightarrow> error + ndarray \<times> ndarray" where
  "smooth_loop f strength ms_encoded largest_phase [] st = Inr st"
| "smooth_loop f strength ms_encoded largest_phase (phase # phases)
       (ms_smoothed, largest_indicator_function) =
     (if phase = largest_phase then
        smooth_loop f strength ms_encoded largest_phase phases
          (ms_smoothed, largest_indicator_function)
      else
        case setitem_last ms_smoothed phase (f (getitem_last ms_encoded phase) strength) of
          Inl e \<Rightarrow> Inl e
        | Inr ms_smoothed' \<Rightarrow>
            (case isub largest_indicator_function (getitem_last ms_smoothed' phase) of
               Inl e \<Rightarrow> Inl e
             | Inr largest_indicator_function' \<Rightarrow>
                 smooth_loop f strength ms_encoded largest_phase phases
                   (ms_smoothed', largest_indicator_function')))"

definition volume_fractions :: "ndarray \<Rightarrow> real list" where
  "volume_fractions ms_encoded =
     map (\<lambda>phase. np_average (getitem_last ms_encoded phase))
       [0..<last (shape ms_encoded)]"

text \<open>The function returns the content of the handle \<open>x\<close> after the final \<open>assign\<close>.\<close>

definition smooth_multiphase ::
  "ndarray \<Rightarrow> microstructure \<Rightarrow> (ndarray \<Rightarrow> real \<Rightarrow> ndarray) \<Rightarrow> real \<Rightarrow> error + ndarray" where
  "smooth_multiphase x microstructure f strength =
     (case getitem0 x of
        Inl e \<Rightarrow> Inl e
      | Inr ms_encoded \<Rightarrow>
          if shape ms_encoded = [] then Inl (IndexError ''tuple index out of range'')
          else
            (case np_argmax (volume_fractions ms_encoded) of
               Inl e \<Rightarrow> Inl e
             | Inr largest_phase \<Rightarrow>
                 (case smooth_loop f strength ms_encoded largest_phase
                         [0..<last (shape ms_encoded)]
                         (np_zeros (shape ms_encoded),
                          np_ones (spatial_shape microstructure)) of
                    Inl e \<Rightarrow> Inl e
                  | Inr (ms_smoothed, largest_indicator_function) \<Rightarrow>
                      (case setitem_last ms_smoothed largest_phase
                              largest_indicator_function of
                         Inl e \<Rightarrow> Inl e
                       | Inr ms_smoothed' \<Rightarrow>
                           (case reshape ms_smoothed' (shape x) of
                              Inl e \<Rightarrow> Inl e
                            | Inr r \<Rightarrow> assign x r)))))"

text \<open>
  \<open>smooth\<close> returns the object it was given; the second component is that object after
  the call, also when the call raises.
\<close>

definition smooth ::
  "gaussian_filter \<Rightarrow> microstructure \<Rightarrow> string \<Rightarrow> real \<Rightarrow> (error + unit) \<times> microstructure" where
  "smooth gf microstructure method strength =
     (if \<not> has_phases microstructure then (Inl AssertionError, microstructure)
      else if method = ''gaussian'' then
        use_multiphase_encoding microstructure
          (\<lambda>x. smooth_multiphase x microstructure (gaussian_smoothing gf) strength)
      else
        (Inl (NotImplementedError
               (''Smoothing method '' @ method @ '' was chosen, but is not implemented.'')),
         microstructure))"

section \<open>Float64 arithmetic\<close>

text \<open>
  Rounding of a real number to float64: to the nearest number with a significand of 53
  bits, a tie to the one with the even significand. The range of the exponent is not
  bounded here, so overflow and subnormal numbers are outside.
\<close>

definition pow2 :: "int \<Rightarrow> real" where
  "pow2 e = (if 0 \<le> e then 2 ^ nat e else 1 / 2 ^ nat (- e))"

text \<open>The exponent \<open>e\<close> with \<open>2 ^ e \<le> x < 2 ^ (e + 1)\<close>, for positive \<open>x\<close>.\<close>

definition binary_exponent :: "real \<Rightarrow> int" where
  "binary_exponent x =
     (if 1 \<le> x then bitlen \<lfloor>x\<rfloor> - 1 else - bitlen (\<lceil>1 / x\<rceil> - 1))"

definition float64_round :: "real \<Rightarrow> real" where
  "float64_round x =
     (if x = 0 then 0
      else let e = binary_exponent \<bar>x\<bar> - 52
           in rint (x / pow2 e) * pow2 e)"

text \<open>
  The smoother as it runs on float64. Its one arithmetic operation is the subtraction
  \<open>largest_indicator_function -= ms_smoothed[..., phase]\<close>, whose results are rounded;
  slicing, assignment, \<open>np.zeros\<close>, \<open>np.ones\<close> and \<open>np.round\<close> compute nothing that
  needs rounding. The averages that select the dominant phase come from numpy, which
  leaves the order of its summation open: \<open>average\<close> is a parameter. The filter is the
  parameter \<open>gf\<close> as before, with whatever rounding happens inside the library.
\<close>

definition isub_f64 :: "ndarray \<Rightarrow> ndarray \<Rightarrow> error + ndarray" where
  "isub_f64 a b =
     (if shape b = shape a then
        Inr (a\<lparr>data := map (\<lambda>(u, w). float64_round (u - w)) (zip (data a) (data b))\<rparr>)
      else Inl (ValueError ''operands could not be broadcast together''))"

fun smooth_loop_f64 ::
  "(ndarray \<Rightarrow> real \<Rightarrow> ndarray) \<Rightarrow> real \<Rightarrow> ndarray \<Rightarrow> nat \<Rightarrow> nat list
     \<Rightarrow> ndarray \<times> ndarray \<Rightarrow> error + ndarray \<times> ndarray" where
  "smooth_loop_f64 f strength ms_encoded largest_phase [] st = Inr st"
| "smooth_loop_f64 f strength ms_encoded largest_phase (phase # phases)
       (ms_smoothed, largest_indicator_function) =
     (if phase = largest_phase then
        smooth_loop_f64 f strength ms_encoded largest_phase phases
          (ms_smoothed, largest_indicator_function)
      else
        case setitem_last ms_smoothed phase (f (getitem_last ms_encoded phase) strength) of
          Inl e \<Rightarrow> Inl e
        | Inr ms_smoothed' \<Rightarrow>
            (case isub_f64 largest_indicator_function (getitem_last ms_smoothed' phase) of
               Inl e \<Rightarrow> Inl e
             | Inr largest_indicator_function' \<Rightarrow>
                 smooth_loop_f64 f strength ms_encoded largest_phase phases
                   (ms_smoothed', largest_indicator_function')))"

definition smooth_multiphase_f64 ::
  "(ndarray \<Rightarrow> real) \<Rightarrow> ndarray \<Rightarrow> microstructure \<Rightarrow> (ndarray \<Rightarrow> real \<Rightarrow> ndarray) \<Rightarrow> real
     \<Rightarrow> error + ndarray" where
  "smooth_multiphase_f64 average x microstructure f strength =
     (case getitem0 x of
        Inl e \<Rightarrow> Inl e
      | Inr ms_encoded \<Rightarrow>
          if shape ms_encoded = [] then Inl (IndexError ''tuple index out of range'')
          else
            (case np_argmax (map (\<lambda>phase. average (getitem_last ms_encoded phase))
                               [0..<last (shape ms_encoded)]) of
               Inl e \<Rightarrow> Inl e
             | Inr largest_phase \<Rightarrow>
                 (case smooth_loop_f64 f strength ms_encoded largest_phase
                         [0..<last (shape ms_encoded)]
                         (np_zeros (shape ms_encoded),
                          np_ones (spatial_shape microstructure)) of
                    Inl e \<Rightarrow> Inl e
                  | Inr (ms_smoothed, largest_indicator_function) \<Rightarrow>
                      (case setitem_last ms_smoothed largest_phase
                              largest_indicator_function of
                         Inl e \<Rightarrow> Inl e
                       | Inr ms_smoothed' \<Rightarrow>
                           (case reshape ms_smoothed' (shape x) of
                              Inl e \<Rightarrow> Inl e
                            | Inr r \<Rightarrow> assign x r)))))"

definition smooth_f64 ::
  "(ndarray \<Rightarrow> real) \<Rightarrow> gaussian_filter \<Rightarrow> microstructure \<Rightarrow> string \<Rightarrow> real
     \<Rightarrow> (error + unit) \<times> microstructure" where
  "smooth_f64 average gf microstructure method strength =
     (if \<not> has_phases microstructure then (Inl AssertionError, microstructure)
      else if method = ''gaussian'' then
        use_multiphase_encoding microstructure
          (\<lambda>x. smooth_multiphase_f64 average x microstructure (gaussian_smoothing gf) strength)
      else
        (Inl (NotImplementedError
               (''Smoothing method '' @ method @ '' was chosen, but is not implemented.'')),
         microstructure))"

section \<open>Notions used in the properties\<close>

text \<open>
  The dominant slice in the words of the specification: one minus the sum of all other
  smoothed slices, location by location.
\<close>

definition sum_of_others :: "(ndarray \<Rightarrow> real \<Rightarrow> ndarray) \<Rightarrow> real \<Rightarrow> ndarray \<Rightarrow> nat \<Rightarrow> nat \<Rightarrow> real" where
  "sum_of_others f strength ms_encoded largest_phase i =
     sum_list (map (\<lambda>phase. data (f (getitem_last ms_encoded phase) strength) ! i)
                 (filter (\<lambda>phase. phase \<noteq> largest_phase) [0..<last (shape ms_encoded)]))"

definition complement_of_others :: "(ndarray \<Rightarrow> real \<Rightarrow> ndarray) \<Rightarrow> real \<Rightarrow> ndarray \<Rightarrow> nat \<Rightarrow> ndarray" where
  "complement_of_others f strength ms_encoded largest_phase =
     \<lparr>shape = butlast (shape ms_encoded),
      data = map (\<lambda>i. 1 - sum_of_others f strength ms_encoded largest_phase i)
               [0..<prod_list (butlast (shape ms_encoded))]\<rparr>"

text \<open>The sum across the phase axis at the spatial location \<open>i\<close>.\<close>

definition phase_sum :: "ndarray \<Rightarrow> nat \<Rightarrow> real" where
  "phase_sum a i =
     sum_list (map (\<lambda>phase. data a ! (i * last (shape a) + phase)) [0..<last (shape a)])"

text \<open>
  The same sum computed in float64, the phases added from left to right, every partial
  sum rounded.
\<close>

definition phase_sum_f64 :: "ndarray \<Rightarrow> nat \<Rightarrow> real" where
  "phase_sum_f64 a i =
     foldl (\<lambda>acc v. float64_round (acc + v)) 0
       (map (\<lambda>phase. data a ! (i * last (shape a) + phase)) [0..<last (shape a)])"

text \<open>
  A uniform single-phase encoding: the indicator of phase \<open>k\<close> is 1 at every location,
  every other indicator is 0.
\<close>

definition uniform_single_phase :: "ndarray \<Rightarrow> nat \<Rightarrow> bool" where
  "uniform_single_phase a k \<longleftrightarrow>
     data a = map (\<lambda>j. if j mod last (shape a) = k then 1 else 0) [0..<length (data a)]"

section \<open>The command-line entry point\<close>

text \<open>
  The parsed arguments; \<open>method_option\<close> is the attribute \<open>method\<close>. \<open>--strength\<close> is
  declared with \<open>type=str\<close> and the default \<open>1.0\<close>, so it holds a string when given and
  a number otherwise.
\<close>

datatype option_value = Text string | Number real

record args =
  microstructure_filename :: string
  method_option :: string
  strength :: option_value
  info :: "string option"

text \<open>
  The file system as far as \<open>main\<close> sees it: the \<open>.npy\<close> files by name, each holding what
  loading it yields. \<open>os.path.isfile\<close> asks whether the name is present.
\<close>

type_synonym filesystem = "string \<rightharpoonup> microstructure"

definition isfile :: "filesystem \<Rightarrow> string \<Rightarrow> bool" where
  "isfile fs name \<longleftrightarrow> fs name \<noteq> None"

text \<open>
  Modelled from the spec: the method \<open>from_npy\<close> of the class \<open>Microstructure\<close>, called with
  \<open>use_multiphase=True\<close>. It loads a microstructure from a persisted array file.
\<close>

definition from_npy :: "filesystem \<Rightarrow> string \<Rightarrow> error + microstructure" where
  "from_npy fs name =
     (case fs name of
        None \<Rightarrow> Inl (ValueError ''no such file'')
      | Some ms \<Rightarrow> Inr ms)"

text \<open>
  Modelled from the spec: the method \<open>to_npy\<close> of the class \<open>Microstructure\<close>. It persists
  the microstructure under the given file name.
\<close>

definition to_npy :: "filesystem \<Rightarrow> string \<Rightarrow> microstructure \<Rightarrow> filesystem" where
  "to_npy fs name ms = fs(name \<mapsto> ms)"

text \<open>\<open>s.endswith(suffix)\<close> and the slice \<open>s[:-4]\<close>.\<close>

definition endswith :: "string \<Rightarrow> string \<Rightarrow> bool" where
  "endswith s suffix \<longleftrightarrow>
     length suffix \<le> length s \<and> drop (length s - length suffix) s = suffix"

definition drop_last4 :: "string \<Rightarrow> string" where
  "drop_last4 s = take (length s - 4) s"

definition filename_additive :: "args \<Rightarrow> string" where
  "filename_additive a = (case info a of None \<Rightarrow> [] | Some i \<Rightarrow> ''_'' @ i)"

definition output_filename :: "args \<Rightarrow> string" where
  "output_filename a =
     drop_last4 (microstructure_filename a) @ filename_additive a @ ''_smoothed.npy''"

definition main :: "gaussian_filter \<Rightarrow> filesystem \<Rightarrow> args \<Rightarrow> (error + unit) \<times> filesystem" where
  "main gf fs a =
     (if \<not> isfile fs (microstructure_filename a) then
        (Inl (ValueError (''Given file '' @ microstructure_filename a @ '' does not exist!'')),
         fs)
      else if \<not> endswith (microstructure_filename a) ''.npy'' then
        (Inl (ValueError
               (''Given file '' @ microstructure_filename a @ '' should be a .npy-file!'')),
         fs)
      else
        (case from_npy fs (microstructure_filename a) of
           Inl e \<Rightarrow> (Inl e, fs)
         | Inr ms \<Rightarrow>
             (case smooth gf ms ''gaussian'' 1 of
                (Inl e, ms_smoothed) \<Rightarrow> (Inl e, fs)
              | (Inr u, ms_smoothed) \<Rightarrow>
                  (Inr (), to_npy fs (output_filename a) ms_smoothed))))"

section \<open>Example inputs\<close>

text \<open>
  Four microstructures on a 2 x 2 grid: one without phase information, one with three
  phases, one whose two phases fill the same volume, and one filled by its second phase.
\<close>

definition ms_unready :: microstructure where
  "ms_unready =
     \<lparr>has_phases = False, spatial_shape = [2, 2],
      encoding = \<lparr>shape = [1, 2, 2, 2], data = [1, 0, 1, 0, 0, 1, 0, 1]\<rparr>\<rparr>"

definition ms_grid :: microstructure where
  "ms_grid =
     \<lparr>has_phases = True, spatial_shape = [2, 2],
      encoding = \<lparr>shape = [1, 2, 2, 3],
                  data = [1, 0, 0, 1, 0, 0, 0, 1, 0, 0, 0, 1]\<rparr>\<rparr>"

definition ms_tie :: microstructure where
  "ms_tie =
     \<lparr>has_phases = True, spatial_shape = [2, 2],
      encoding = \<lparr>shape = [1, 2, 2, 2], data = [1, 0, 0, 1, 1, 0, 0, 1]\<rparr>\<rparr>"

definition ms_uniform :: microstructure where
  "ms_uniform =
     \<lparr>has_phases = True, spatial_shape = [2, 2],
      encoding = \<lparr>shape = [1, 2, 2, 2], data = [0, 1, 0, 1, 0, 1, 0, 1]\<rparr>\<rparr>"

text \<open>
  One location with three phases whose first two indicators are the float64 numbers
  next to 3/10 and 6/10: an encoding that is not one-hot, for trying the arithmetic on
  values that are not integers.
\<close>

definition ms_fraction :: microstructure where
  "ms_fraction =
     \<lparr>has_phases = True, spatial_shape = [1, 1],
      encoding = \<lparr>shape = [1, 1, 1, 3],
                  data = [float64_round (3 / 10), float64_round (6 / 10), 1]\<rparr>\<rparr>"

text \<open>A command line naming a stored file, with an info tag, and the store it refers to.\<close>

definition args_example :: args where
  "args_example =
     \<lparr>microstructure_filename = ''cell.npy'', method_option = ''median'', strength = Text ''3'',
      info = Some ''run1''\<rparr>"

definition fs_example :: filesystem where
  "fs_example = [''cell.npy'' \<mapsto> ms_grid]"

section \<open>Facts about the array operations\<close>

lemma index_bound: "p < P \<Longrightarrow> i < n \<Longrightarrow> i * P + p < n * (P::nat)"
proof -
  assume a: "p < P" "i < n"
  then have "i * P + p < i * P + P" by simp
  also have "\<dots> = Suc i * P" by simp
  also have "\<dots> \<le> n * P" using a(2) by (intro mult_le_mono1) simp
  finally show ?thesis .
qed

lemma wf_getitem_last:
  "wf_array (getitem_last a p)"
  by (simp add: wf_array_def getitem_last_def)

lemma shape_getitem_last: "shape (getitem_last a p) = butlast (shape a)"
  by (simp add: getitem_last_def)

lemma setitem_last_ok:
  assumes "wf_array a" "shape a = sp @ [P]" "p < P" "shape v = sp" "wf_array v"
  shows "\<exists>a'. setitem_last a p v = Inr a' \<and> wf_array a' \<and> shape a' = sp @ [P]
            \<and> getitem_last a' p = v
            \<and> (\<forall>q. q < P \<longrightarrow> q \<noteq> p \<longrightarrow> getitem_last a' q = getitem_last a q)"
proof -
  let ?n = "prod_list sp"
  let ?g = "\<lambda>k. if k mod P = p then data v ! (k div P) else data a ! k"
  let ?a' = "a\<lparr>data := map ?g [0..<length (data a)]\<rparr>"
  have len: "length (data a) = ?n * P"
    using assms(1,2) by (simp add: wf_array_def)
  have lenv: "length (data v) = ?n"
    using assms(4,5) by (simp add: wf_array_def)
  have set: "setitem_last a p v = Inr ?a'"
    using assms(2,4) by (simp add: setitem_last_def)
  have wf: "wf_array ?a'"
    using assms(1) by (simp add: wf_array_def)
  have sh: "shape ?a' = sp @ [P]"
    using assms(2) by simp
  have nth: "data ?a' ! (i * P + q) = ?g (i * P + q)" if "i < ?n" "q < P" for i q
    using index_bound [OF that(2) that(1)] len by simp
  have same: "data (getitem_last ?a' p) = data v"
  proof (rule nth_equalityI)
    show "length (data (getitem_last ?a' p)) = length (data v)"
      using lenv assms(2) by (simp add: getitem_last_def)
  next
    fix i assume "i < length (data (getitem_last ?a' p))"
    then have i: "i < ?n" using assms(2) by (simp add: getitem_last_def)
    then show "data (getitem_last ?a' p) ! i = data v ! i"
      using nth [OF i assms(3)] assms(2,3) by (simp add: getitem_last_def)
  qed
  have eqp: "getitem_last ?a' p = v"
    using same assms(2,4) by (simp add: getitem_last_def)
  have other: "getitem_last ?a' q = getitem_last a q" if "q < P" "q \<noteq> p" for q
  proof -
    have "data ?a' ! (i * P + q) = data a ! (i * P + q)" if "i < ?n" for i
      using nth [OF that \<open>q < P\<close>] \<open>q < P\<close> \<open>q \<noteq> p\<close> by simp
    then show ?thesis
      using assms(2) by (simp add: getitem_last_def)
  qed
  show ?thesis
    using set wf sh eqp other by blast
qed

lemma isub_ok:
  assumes "wf_array a" "wf_array b" "shape b = shape a"
  shows "\<exists>r. isub a b = Inr r \<and> wf_array r \<and> shape r = shape a
           \<and> data r = map (\<lambda>i. data a ! i - data b ! i) [0..<prod_list (shape a)]"
proof -
  let ?r = "a\<lparr>data := map (\<lambda>(u, w). u - w) (zip (data a) (data b))\<rparr>"
  have la: "length (data a) = prod_list (shape a)" and lb: "length (data b) = prod_list (shape a)"
    using assms by (simp_all add: wf_array_def)
  have "isub a b = Inr ?r" using assms(3) by (simp add: isub_def)
  moreover have "wf_array ?r" using la lb by (simp add: wf_array_def)
  moreover have "data ?r = map (\<lambda>i. data a ! i - data b ! i) [0..<prod_list (shape a)]"
    using la lb by (intro nth_equalityI) simp_all
  ultimately show ?thesis by simp
qed


lemma smooth_loop_ok:
  assumes f: "filter_wf f" and enc: "wf_array enc" "shape enc = sp @ [P]"
  shows "wf_array sm \<Longrightarrow> shape sm = sp @ [P] \<Longrightarrow> wf_array lif \<Longrightarrow> shape lif = sp \<Longrightarrow>
         \<forall>p\<in>set ps. p < P \<Longrightarrow> distinct ps \<Longrightarrow>
         \<exists>sm' lif'. smooth_loop f s enc L ps (sm, lif) = Inr (sm', lif')
            \<and> wf_array sm' \<and> shape sm' = sp @ [P] \<and> wf_array lif' \<and> shape lif' = sp
            \<and> (\<forall>q<P. getitem_last sm' q =
                  (if q \<in> set ps \<and> q \<noteq> L then f (getitem_last enc q) s else getitem_last sm q))
            \<and> data lif' =
                map (\<lambda>i. data lif ! i
                       - sum_list (map (\<lambda>p. data (f (getitem_last enc p) s) ! i)
                                     (filter (\<lambda>p. p \<noteq> L) ps)))
                  [0..<prod_list sp]"
proof (induction ps arbitrary: sm lif)
  case Nil
  have "length (data lif) = prod_list sp"
    using Nil.prems(3,4) by (simp add: wf_array_def)
  then have "data lif = map (\<lambda>i. data lif ! i) [0..<prod_list sp]"
    by (metis map_nth)
  then show ?case
    using Nil.prems by simp
next
  case (Cons p ps)
  have pP: "p < P" and rest: "\<forall>p\<in>set ps. p < P" and dist: "distinct ps" and notin: "p \<notin> set ps"
    using Cons.prems(5,6) by simp_all
  show ?case
  proof (cases "p = L")
    case True
    from Cons.IH [OF Cons.prems(1-4) rest dist]
    obtain sm' lif' where r: "smooth_loop f s enc L ps (sm, lif) = Inr (sm', lif')"
      "wf_array sm'" "shape sm' = sp @ [P]" "wf_array lif'" "shape lif' = sp"
      "\<forall>q<P. getitem_last sm' q =
          (if q \<in> set ps \<and> q \<noteq> L then f (getitem_last enc q) s else getitem_last sm q)"
      "data lif' = map (\<lambda>i. data lif ! i
                       - sum_list (map (\<lambda>p. data (f (getitem_last enc p) s) ! i)
                                     (filter (\<lambda>p. p \<noteq> L) ps)))
                  [0..<prod_list sp]"
      by blast
    have run: "smooth_loop f s enc L (p # ps) (sm, lif) = Inr (sm', lif')"
      using True r(1) by simp
    have slices: "\<forall>q<P. getitem_last sm' q =
          (if q \<in> set (p # ps) \<and> q \<noteq> L then f (getitem_last enc q) s else getitem_last sm q)"
      using r(6) True by auto
    have comp: "data lif' = map (\<lambda>i. data lif ! i
                       - sum_list (map (\<lambda>p. data (f (getitem_last enc p) s) ! i)
                                     (filter (\<lambda>p. p \<noteq> L) (p # ps))))
                  [0..<prod_list sp]"
      using r(7) True by simp
    show ?thesis
      by (intro exI conjI) (fact run, fact r(2), fact r(3), fact r(4), fact r(5), fact slices, fact comp)
  next
    case False
    let ?v = "f (getitem_last enc p) s"
    have v: "wf_array ?v" "shape ?v = sp"
      using f enc(2) wf_getitem_last [of enc p] by (simp_all add: filter_wf_def shape_getitem_last)
    from setitem_last_ok [OF Cons.prems(1,2) pP v(2,1)]
    obtain sm1 where sm1: "setitem_last sm p ?v = Inr sm1" "wf_array sm1" "shape sm1 = sp @ [P]"
      "getitem_last sm1 p = ?v"
      "\<forall>q. q < P \<longrightarrow> q \<noteq> p \<longrightarrow> getitem_last sm1 q = getitem_last sm q"
      by blast
    from isub_ok [OF Cons.prems(3) v(1)] v(2) Cons.prems(4)
    obtain lif1 where lif1: "isub lif ?v = Inr lif1" "wf_array lif1" "shape lif1 = sp"
      "data lif1 = map (\<lambda>i. data lif ! i - data ?v ! i) [0..<prod_list sp]"
      by auto
    from Cons.IH [OF sm1(2,3) lif1(2,3) rest dist]
    obtain sm' lif' where r: "smooth_loop f s enc L ps (sm1, lif1) = Inr (sm', lif')"
      "wf_array sm'" "shape sm' = sp @ [P]" "wf_array lif'" "shape lif' = sp"
      "\<forall>q<P. getitem_last sm' q =
          (if q \<in> set ps \<and> q \<noteq> L then f (getitem_last enc q) s else getitem_last sm1 q)"
      "data lif' = map (\<lambda>i. data lif1 ! i
                       - sum_list (map (\<lambda>p. data (f (getitem_last enc p) s) ! i)
                                     (filter (\<lambda>p. p \<noteq> L) ps)))
                  [0..<prod_list sp]"
      by blast
    have run: "smooth_loop f s enc L (p # ps) (sm, lif) = Inr (sm', lif')"
      using False sm1(1,4) lif1(1) r(1) by simp
    have slices: "\<forall>q<P. getitem_last sm' q =
          (if q \<in> set (p # ps) \<and> q \<noteq> L then f (getitem_last enc q) s else getitem_last sm q)"
    proof (intro allI impI)
      fix q assume q: "q < P"
      show "getitem_last sm' q =
          (if q \<in> set (p # ps) \<and> q \<noteq> L then f (getitem_last enc q) s else getitem_last sm q)"
      proof (cases "q = p")
        case True
        then show ?thesis using r(6) q notin False sm1(4) by simp
      next
        case neq: False
        then show ?thesis using r(6) q sm1(5) by simp
      qed
    qed
    have comp: "data lif' = map (\<lambda>i. data lif ! i
                       - sum_list (map (\<lambda>p. data (f (getitem_last enc p) s) ! i)
                                     (filter (\<lambda>p. p \<noteq> L) (p # ps))))
                  [0..<prod_list sp]"
      using r(7) lif1(4) False by (simp add: algebra_simps)
    show ?thesis
      by (intro exI conjI) (fact run, fact r(2), fact r(3), fact r(4), fact r(5), fact slices, fact comp)
  qed
qed

lemma argmax_scan_first_max:
  "bi < length pre \<Longrightarrow> bv = pre ! bi \<Longrightarrow> i = length pre \<Longrightarrow>
   \<forall>j<length pre. pre ! j \<le> bv \<Longrightarrow> \<forall>j<bi. pre ! j < bv \<Longrightarrow>
   argmax_scan bi bv i vs < length (pre @ vs)
   \<and> (\<forall>j<length (pre @ vs). (pre @ vs) ! j \<le> (pre @ vs) ! argmax_scan bi bv i vs)
   \<and> (\<forall>j<argmax_scan bi bv i vs. (pre @ vs) ! j < (pre @ vs) ! argmax_scan bi bv i vs)"
proof (induction vs arbitrary: pre bi bv i)
  case Nil
  then show ?case by simp
next
  case (Cons v vs)
  show ?case
  proof (cases "bv < v")
    case True
    have a: "i < length (pre @ [v])" using Cons.prems(3) by simp
    have b: "v = (pre @ [v]) ! i" using Cons.prems(3) by simp
    have c: "Suc i = length (pre @ [v])" using Cons.prems(3) by simp
    have d: "\<forall>j<length (pre @ [v]). (pre @ [v]) ! j \<le> v"
      using Cons.prems(3,4) True by (auto simp: nth_append less_Suc_eq)
    have e: "\<forall>j<i. (pre @ [v]) ! j < v"
      using Cons.prems(3,4) True by (auto simp: nth_append)
    from Cons.IH [OF a b c d e] True show ?thesis by simp
  next
    case False
    have a: "bi < length (pre @ [v])" using Cons.prems(1) by simp
    have b: "bv = (pre @ [v]) ! bi" using Cons.prems(1,2) by (simp add: nth_append)
    have c: "Suc i = length (pre @ [v])" using Cons.prems(3) by simp
    have d: "\<forall>j<length (pre @ [v]). (pre @ [v]) ! j \<le> bv"
      using Cons.prems(3,4) False by (auto simp: nth_append less_Suc_eq)
    have e: "\<forall>j<bi. (pre @ [v]) ! j < bv"
      using Cons.prems(1,5) by (auto simp: nth_append)
    from Cons.IH [OF a b c d e] False show ?thesis by simp
  qed
qed

lemma np_argmax_first_max:
  assumes "vs \<noteq> []"
  shows "\<exists>L. np_argmax vs = Inr L \<and> L < length vs
          \<and> (\<forall>j<length vs. vs ! j \<le> vs ! L) \<and> (\<forall>j<L. vs ! j < vs ! L)"
proof -
  obtain v rest where vs: "vs = v # rest" using assms by (cases vs) auto
  have "argmax_scan 0 v 1 rest < length ([v] @ rest)
   \<and> (\<forall>j<length ([v] @ rest). ([v] @ rest) ! j \<le> ([v] @ rest) ! argmax_scan 0 v 1 rest)
   \<and> (\<forall>j<argmax_scan 0 v 1 rest. ([v] @ rest) ! j < ([v] @ rest) ! argmax_scan 0 v 1 rest)"
    by (rule argmax_scan_first_max) simp_all
  then show ?thesis
    using vs by (simp add: np_argmax_def)
qed

lemma getitem0_wf:
  assumes "wf_ms ms"
  shows "getitem0 (encoding ms) =
           Inr \<lparr>shape = spatial_shape ms @ [num_phases ms], data = data (encoding ms)\<rparr>"
proof -
  have sh: "shape (encoding ms) = 1 # spatial_shape ms @ [num_phases ms]"
    and len: "length (data (encoding ms)) = prod_list (shape (encoding ms))"
    using assms by (simp_all add: wf_ms_def wf_array_def)
  have "take (prod_list (spatial_shape ms @ [num_phases ms])) (data (encoding ms)) = data (encoding ms)"
    using len sh by simp
  then show ?thesis
    using sh by (simp add: getitem0_def)
qed

lemma wf_np_zeros: "wf_array (np_zeros shp)" and wf_np_ones: "wf_array (np_ones shp)"
  by (simp_all add: wf_array_def np_zeros_def np_ones_def)

lemma smooth_multiphase_ok:
  assumes f: "filter_wf f" and ms: "wf_ms ms" and P: "0 < num_phases ms"
  defines "enc \<equiv> \<lparr>shape = spatial_shape ms @ [num_phases ms], data = data (encoding ms)\<rparr>"
  shows "\<exists>L out. np_argmax (volume_fractions enc) = Inr L \<and> L < num_phases ms
     \<and> smooth_multiphase (encoding ms) ms f s = Inr \<lparr>shape = shape (encoding ms), data = data out\<rparr>
     \<and> wf_array out \<and> shape out = spatial_shape ms @ [num_phases ms]
     \<and> (\<forall>q<num_phases ms. getitem_last out q =
            (if q = L then complement_of_others f s enc L else f (getitem_last enc q) s))"
proof -
  let ?sp = "spatial_shape ms" and ?P = "num_phases ms"
  have shx: "shape (encoding ms) = 1 # ?sp @ [?P]"
    and lenx: "length (data (encoding ms)) = prod_list (shape (encoding ms))"
    using ms by (simp_all add: wf_ms_def wf_array_def)
  have g0: "getitem0 (encoding ms) = Inr enc"
    unfolding enc_def by (rule getitem0_wf [OF ms])
  have she: "shape enc = ?sp @ [?P]" by (simp add: enc_def)
  have wfe: "wf_array enc" using lenx shx by (simp add: enc_def wf_array_def)
  have "volume_fractions enc \<noteq> []"
    using P she by (simp add: volume_fractions_def)
  from np_argmax_first_max [OF this]
  obtain L where L: "np_argmax (volume_fractions enc) = Inr L" "L < ?P"
    using she by (auto simp: volume_fractions_def)
  have z: "wf_array (np_zeros (shape enc))" "shape (np_zeros (shape enc)) = ?sp @ [?P]"
    using she by (simp_all add: wf_np_zeros) (simp add: np_zeros_def)
  have o: "wf_array (np_ones ?sp)" "shape (np_ones ?sp) = ?sp"
    by (simp_all add: wf_np_ones) (simp add: np_ones_def)
  have ps: "\<forall>p\<in>set [0..<?P]. p < ?P" "distinct [0..<?P]" by simp_all
  from smooth_loop_ok [OF f wfe she z o ps, of s L]
  obtain sm lif where loop:
      "smooth_loop f s enc L [0..<?P] (np_zeros (shape enc), np_ones ?sp) = Inr (sm, lif)"
      "wf_array sm" "shape sm = ?sp @ [?P]" "wf_array lif" "shape lif = ?sp"
      "\<forall>q<?P. getitem_last sm q =
          (if q \<in> set [0..<?P] \<and> q \<noteq> L then f (getitem_last enc q) s
           else getitem_last (np_zeros (shape enc)) q)"
      "data lif = map (\<lambda>i. data (np_ones ?sp) ! i
                       - sum_list (map (\<lambda>p. data (f (getitem_last enc p) s) ! i)
                                     (filter (\<lambda>p. p \<noteq> L) [0..<?P])))
                  [0..<prod_list ?sp]"
    by blast
  have "data lif = map (\<lambda>i. 1 - sum_of_others f s enc L i) [0..<prod_list ?sp]"
    unfolding loop(7) by (rule map_cong) (simp_all add: np_ones_def sum_of_others_def she)
  then have lif: "lif = complement_of_others f s enc L"
    using loop(5) she by (simp add: complement_of_others_def)
  from setitem_last_ok [OF loop(2,3) L(2) loop(5,4)]
  obtain out where out: "setitem_last sm L lif = Inr out" "wf_array out" "shape out = ?sp @ [?P]"
      "getitem_last out L = lif"
      "\<forall>q. q < ?P \<longrightarrow> q \<noteq> L \<longrightarrow> getitem_last out q = getitem_last sm q"
    by blast
  have slices: "\<forall>q<?P. getitem_last out q =
            (if q = L then complement_of_others f s enc L else f (getitem_last enc q) s)"
    using out(4,5) loop(6) lif by simp
  have leno: "length (data out) = prod_list (shape (encoding ms))"
    using out(2,3) shx by (simp add: wf_array_def)
  have fin: "reshape out (shape (encoding ms)) = Inr \<lparr>shape = shape (encoding ms), data = data out\<rparr>"
    using leno by (simp add: reshape_def)
  have run: "smooth_multiphase (encoding ms) ms f s = Inr \<lparr>shape = shape (encoding ms), data = data out\<rparr>"
    using P by (simp add: smooth_multiphase_def g0 L(1) she loop(1)[unfolded she] out(1) fin assign_def)
  show ?thesis
    by (intro exI conjI) (fact L(1), fact L(2), fact run, fact out(2), fact out(3), fact slices)
qed

lemma rint_int: "rint v \<in> \<int>"
  by (simp add: rint_def Let_def)

lemma rint_near: "\<bar>rint v - v\<bar> \<le> 1 / 2"
  unfolding rint_def Let_def by (auto simp: abs_if) linarith+

lemma filter_wf_gaussian_smoothing:
  "filter_ok gf \<Longrightarrow> filter_wf (gaussian_smoothing gf)"
  by (simp add: filter_ok_def filter_wf_def gaussian_smoothing_def np_round_def wf_array_def)

lemma complement_sum:
  assumes "L < P"
  shows "sum_list (map (\<lambda>p. if p = L then 1 - sum_list (map g (filter (\<lambda>p. p \<noteq> L) [0..<P])) else g p)
                    [0..<P]) = (1::real)"
proof -
  let ?others = "sum_list (map g (filter (\<lambda>p. p \<noteq> L) [0..<P]))"
  let ?h = "\<lambda>p. if p = L then 1 - ?others else g p"
  have others: "?others = sum g ({0..<P} - {L})"
  proof -
    have "?others = sum g (set (filter (\<lambda>p. p \<noteq> L) [0..<P]))"
      by (rule sum_list_distinct_conv_sum_set) simp
    also have "set (filter (\<lambda>p. p \<noteq> L) [0..<P]) = {0..<P} - {L}" by auto
    finally show ?thesis .
  qed
  have "sum_list (map ?h [0..<P]) = sum ?h {0..<P}"
    by (simp add: interv_sum_list_conv_sum_set_nat)
  also have "\<dots> = ?h L + sum ?h ({0..<P} - {L})"
    using assms by (intro sum.remove) simp_all
  also have "sum ?h ({0..<P} - {L}) = sum g ({0..<P} - {L})"
    by (rule sum.cong) simp_all
  finally show ?thesis
    using others by simp
qed

lemma smooth_gaussian_ok:
  assumes gf: "filter_ok gf" and ms: "wf_ms ms" and hp: "has_phases ms" and P: "0 < num_phases ms"
  defines "enc \<equiv> \<lparr>shape = spatial_shape ms @ [num_phases ms], data = data (encoding ms)\<rparr>"
  shows "\<exists>L out. np_argmax (volume_fractions enc) = Inr L \<and> L < num_phases ms
     \<and> smooth gf ms ''gaussian'' sigma =
         (Inr (), ms\<lparr>encoding := \<lparr>shape = shape (encoding ms), data = data out\<rparr>\<rparr>)
     \<and> wf_array out \<and> shape out = spatial_shape ms @ [num_phases ms]
     \<and> (\<forall>q<num_phases ms. getitem_last out q =
            (if q = L then complement_of_others (gaussian_smoothing gf) sigma enc L
             else gaussian_smoothing gf (getitem_last enc q) sigma))"
proof -
  from smooth_multiphase_ok [OF filter_wf_gaussian_smoothing [OF gf] ms P, of sigma]
  obtain L out where r: "np_argmax (volume_fractions enc) = Inr L" "L < num_phases ms"
     "smooth_multiphase (encoding ms) ms (gaussian_smoothing gf) sigma =
        Inr \<lparr>shape = shape (encoding ms), data = data out\<rparr>"
     "wf_array out" "shape out = spatial_shape ms @ [num_phases ms]"
     "\<forall>q<num_phases ms. getitem_last out q =
            (if q = L then complement_of_others (gaussian_smoothing gf) sigma enc L
             else gaussian_smoothing gf (getitem_last enc q) sigma)"
    unfolding enc_def by blast
  have run: "smooth gf ms ''gaussian'' sigma =
         (Inr (), ms\<lparr>encoding := \<lparr>shape = shape (encoding ms), data = data out\<rparr>\<rparr>)"
    using hp by (simp add: smooth_def use_multiphase_encoding_def r(3))
  show ?thesis
    by (intro exI conjI) (fact r(1), fact r(2), fact run, fact r(4), fact r(5), fact r(6))
qed

lemma phase_sum_complement:
  assumes out: "wf_array out" "shape out = sp @ [P]" and L: "L < P" and i: "i < prod_list sp"
    and she: "shape enc = sp @ [P]"
    and slices: "\<forall>q<P. getitem_last out q =
            (if q = L then complement_of_others f s enc L else f (getitem_last enc q) s)"
  shows "phase_sum \<lparr>shape = d # sp @ [P], data = data out\<rparr> i = 1"
proof -
  let ?F = "\<lambda>p. data (f (getitem_last enc p) s) ! i"
  have nth: "data out ! (i * P + p) = data (getitem_last out p) ! i" for p
    using i out(2) by (simp add: getitem_last_def)
  have compl: "data (complement_of_others f s enc L) ! i
                 = 1 - sum_list (map ?F (filter (\<lambda>p. p \<noteq> L) [0..<P]))"
    using i she by (simp add: complement_of_others_def sum_of_others_def)
  have "phase_sum \<lparr>shape = d # sp @ [P], data = data out\<rparr> i
          = sum_list (map (\<lambda>p. data (getitem_last out p) ! i) [0..<P])"
    by (simp add: phase_sum_def nth)
  also have "\<dots> = sum_list (map (\<lambda>p. if p = L then 1 - sum_list (map ?F (filter (\<lambda>p. p \<noteq> L) [0..<P]))
                                       else ?F p) [0..<P])"
    by (rule arg_cong [where f = sum_list], rule map_cong) (use slices compl in auto)
  also have "\<dots> = 1"
    by (rule complement_sum [OF L])
  finally show ?thesis .
qed



lemma getitem0_result:
  assumes "wf_ms ms" "wf_array out" "shape out = spatial_shape ms @ [num_phases ms]"
  shows "getitem0 \<lparr>shape = shape (encoding ms), data = data out\<rparr> = Inr out"
proof -
  have "shape (encoding ms) = 1 # spatial_shape ms @ [num_phases ms]"
    using assms(1) by (simp add: wf_ms_def)
  moreover have "length (data out) = prod_list (spatial_shape ms @ [num_phases ms])"
    using assms(2,3) by (simp add: wf_array_def)
  ultimately show ?thesis
    using assms(3) by (simp add: getitem0_def)
qed

section \<open>Facts about the example inputs\<close>

text \<open>
  The three-point blur meets both promises of the library filter. Smoothing the
  three-phase grid with it removes the two small phases; smoothing the grid with two
  equal phases makes the first phase, the one the tie goes to, fill the grid.
\<close>

lemma filter_ok_wrap_blur3: "filter_ok wrap_blur3"
  by (simp add: filter_ok_def wrap_blur3_def wf_array_def)

lemma filter_zero_wrap_blur3: "filter_zero wrap_blur3"
  unfolding filter_zero_def wrap_blur3_def np_zeros_def
  by (auto intro!: nth_equalityI)

lemma wf_ms_grid: "wf_ms ms_grid"
  by (simp add: wf_ms_def ms_grid_def wf_array_def num_phases_def)

lemma wf_ms_tie: "wf_ms ms_tie"
  by (simp add: wf_ms_def ms_tie_def wf_array_def num_phases_def)

lemma wf_ms_uniform: "wf_ms ms_uniform"
  by (simp add: wf_ms_def ms_uniform_def wf_array_def num_phases_def)

lemma smooth_ms_grid:
  "smooth wrap_blur3 ms_grid ''gaussian'' 1 =
     (Inr (), ms_grid\<lparr>encoding := \<lparr>shape = [1, 2, 2, 3],
                                    data = [1, 0, 0, 1, 0, 0, 1, 0, 0, 1, 0, 0]\<rparr>\<rparr>)"
  by code_simp

lemma smooth_ms_tie:
  "smooth wrap_blur3 ms_tie ''gaussian'' 1 =
     (Inr (), ms_tie\<lparr>encoding := \<lparr>shape = [1, 2, 2, 2],
                                   data = [1, 0, 1, 0, 1, 0, 1, 0]\<rparr>\<rparr>)"
  by code_simp

section \<open>Rejected calls\<close>

text \<open>
  C5: a microstructure whose \<open>has_phases\<close> is false makes \<open>smooth\<close> fail with the
  assertion error, whatever the method and the strength are, and the microstructure
  after the call is the one before it.
\<close>

theorem smooth_requires_phases:
  "\<not> has_phases ms \<Longrightarrow> smooth gf ms meth sigma = (Inl AssertionError, ms)"
  by (simp add: smooth_def)

theorem smooth_requires_phases_witness:
  "\<not> has_phases ms_unready
   \<and> smooth wrap_blur3 ms_unready ''bogus'' 1 = (Inl AssertionError, ms_unready)"
proof -
  have h: "\<not> has_phases ms_unready" by (simp add: ms_unready_def)
  from smooth_requires_phases [OF h, of wrap_blur3 "''bogus''" 1] h
  show ?thesis by simp
qed

text \<open>
  C4, as stated, fails: with a method other than \<open>gaussian\<close> and a microstructure
  without phase information the assertion comes first, and the error is the assertion
  error, not the one naming the method.
\<close>

theorem unknown_method_counterexample:
  "''bogus'' \<noteq> ''gaussian''
   \<and> smooth wrap_blur3 ms_unready ''bogus'' 1 = (Inl AssertionError, ms_unready)
   \<and> smooth wrap_blur3 ms_unready ''bogus'' 1
       \<noteq> (Inl (NotImplementedError
                 ''Smoothing method bogus was chosen, but is not implemented.''),
           ms_unready)"
  by (simp add: smooth_def ms_unready_def)

text \<open>
  C4, amended: for a microstructure that has phases, every method other than
  \<open>gaussian\<close> makes \<open>smooth\<close> fail with the not-implemented error whose message contains
  the requested method, and the microstructure after the call is the one before it.
\<close>

theorem smooth_unknown_method:
  "has_phases ms \<Longrightarrow> meth \<noteq> ''gaussian'' \<Longrightarrow>
   smooth gf ms meth sigma =
     (Inl (NotImplementedError
            (''Smoothing method '' @ meth @ '' was chosen, but is not implemented.'')),
      ms)"
  by (simp add: smooth_def)

theorem smooth_unknown_method_witness:
  "has_phases ms_grid \<and> ''bogus'' \<noteq> ''gaussian''
   \<and> smooth wrap_blur3 ms_grid ''bogus'' 1 =
       (Inl (NotImplementedError
              ''Smoothing method bogus was chosen, but is not implemented.''),
        ms_grid)"
proof -
  have h1: "has_phases ms_grid" by (simp add: ms_grid_def)
  have h2: "''bogus'' \<noteq> ''gaussian''" by simp
  from smooth_unknown_method [OF h1 h2, of wrap_blur3 1] h1 h2
  show ?thesis by simp
qed

section \<open>The entry point\<close>

lemma endswith_npy:
  "endswith (base @ ''.npy'') ''.npy''"
  by (simp add: endswith_def)

lemma drop_last4_npy:
  "drop_last4 (base @ ''.npy'') = base"
  by (simp add: drop_last4_def)

text \<open>
  C8: for an input file name that ends in \<open>.npy\<close>, \<open>main\<close> stores the smoothed
  microstructure under the input name without its last four characters, then an
  underscore and the info tag if one was given, then \<open>_smoothed.npy\<close>; when smoothing
  fails nothing is stored.
\<close>

theorem main_output_filename:
  assumes "microstructure_filename a = base @ ''.npy''"
    and "fs (microstructure_filename a) = Some ms"
  shows "main gf fs a =
           (case smooth gf ms ''gaussian'' 1 of
              (Inl e, ms') \<Rightarrow> (Inl e, fs)
            | (Inr u, ms') \<Rightarrow>
                (Inr (),
                 fs(base @ (case info a of None \<Rightarrow> [] | Some tag \<Rightarrow> ''_'' @ tag)
                      @ ''_smoothed.npy'' \<mapsto> ms')))"
proof -
  have "output_filename a =
          base @ (case info a of None \<Rightarrow> [] | Some tag \<Rightarrow> ''_'' @ tag) @ ''_smoothed.npy''"
    using assms(1) by (simp add: output_filename_def filename_additive_def drop_last4_npy)
  then show ?thesis
    using assms endswith_npy [of base]
    by (simp add: main_def isfile_def from_npy_def to_npy_def
             cong: sum.case_cong prod.case_cong)
qed

theorem main_output_filename_witness:
  "microstructure_filename args_example = ''cell'' @ ''.npy''
   \<and> fs_example (microstructure_filename args_example) = Some ms_grid
   \<and> main wrap_blur3 fs_example args_example =
       (case smooth wrap_blur3 ms_grid ''gaussian'' 1 of
          (Inl e, ms') \<Rightarrow> (Inl e, fs_example)
        | (Inr u, ms') \<Rightarrow> (Inr (), fs_example(''cell_run1_smoothed.npy'' \<mapsto> ms')))"
proof -
  have h1: "microstructure_filename args_example = ''cell'' @ ''.npy''"
    by (simp add: args_example_def)
  have h2: "fs_example (microstructure_filename args_example) = Some ms_grid"
    by (simp add: args_example_def fs_example_def)
  have i: "info args_example = Some ''run1''"
    by (simp add: args_example_def)
  note c = main_output_filename
    [where a = args_example and base = "''cell''" and fs = fs_example and ms = ms_grid
       and gf = wrap_blur3, OF h1 h2]
  have n: "''cell'' @ (case info args_example of None \<Rightarrow> [] | Some tag \<Rightarrow> ''_'' @ tag)
             @ ''_smoothed.npy'' = ''cell_run1_smoothed.npy''"
    by (simp add: i)
  show ?thesis
    by (intro conjI) (fact h1, fact h2, fact c [unfolded n])
qed

text \<open>
  C9: \<open>main\<close> does not look at the parsed \<open>--method\<close> and \<open>--strength\<close>. Whatever values
  they hold, the outcome of \<open>main\<close> is the same, and for a stored file with the right
  extension it is the outcome of \<open>smooth\<close> called with the method \<open>gaussian\<close> and the
  strength 1, persisted under the output file name.
\<close>

theorem main_calls_smooth_with_defaults:
  "main gf fs (a\<lparr>method_option := m, strength := s\<rparr>) = main gf fs a
   \<and> (fs (microstructure_filename a) = Some ms \<longrightarrow>
        endswith (microstructure_filename a) ''.npy'' \<longrightarrow>
        main gf fs (a\<lparr>method_option := m, strength := s\<rparr>) =
          (case smooth gf ms ''gaussian'' 1 of
             (Inl e, ms') \<Rightarrow> (Inl e, fs)
           | (Inr u, ms') \<Rightarrow> (Inr (), to_npy fs (output_filename a) ms')))"
proof -
  have n: "output_filename (a\<lparr>method_option := m, strength := s\<rparr>) = output_filename a"
    by (simp add: output_filename_def filename_additive_def)
  have same: "main gf fs (a\<lparr>method_option := m, strength := s\<rparr>) = main gf fs a"
    using n by (simp add: main_def cong: sum.case_cong prod.case_cong)
  have call: "main gf fs a =
          (case smooth gf ms ''gaussian'' 1 of
             (Inl e, ms') \<Rightarrow> (Inl e, fs)
           | (Inr u, ms') \<Rightarrow> (Inr (), to_npy fs (output_filename a) ms'))"
    if "fs (microstructure_filename a) = Some ms" "endswith (microstructure_filename a) ''.npy''"
    using that by (simp add: main_def isfile_def from_npy_def)
  show ?thesis
    using same call by simp
qed

theorem main_calls_smooth_with_defaults_witness:
  "fs_example (microstructure_filename args_example) = Some ms_grid
   \<and> endswith (microstructure_filename args_example) ''.npy''
   \<and> method_option args_example = ''median'' \<and> strength args_example = Text ''3''
   \<and> fst (smooth wrap_blur3 ms_grid ''median'' 3)
        = Inl (NotImplementedError ''Smoothing method median was chosen, but is not implemented.'')
   \<and> main wrap_blur3 fs_example args_example =
        (case smooth wrap_blur3 ms_grid ''gaussian'' 1 of
           (Inl e, ms') \<Rightarrow> (Inl e, fs_example)
         | (Inr u, ms') \<Rightarrow> (Inr (), to_npy fs_example (output_filename args_example) ms'))
   \<and> main wrap_blur3 fs_example args_example =
        (Inr (), fs_example(''cell_run1_smoothed.npy'' \<mapsto>
           ms_grid\<lparr>encoding := \<lparr>shape = [1, 2, 2, 3],
                                    data = [1, 0, 0, 1, 0, 0, 1, 0, 0, 1, 0, 0]\<rparr>\<rparr>))"
proof -
  have h1: "fs_example (microstructure_filename args_example) = Some ms_grid"
    by (simp add: args_example_def fs_example_def)
  have h2: "endswith (microstructure_filename args_example) ''.npy''"
    by (simp add: args_example_def endswith_def)
  have h3: "method_option args_example = ''median''" and h4: "strength args_example = Text ''3''"
    by (simp_all add: args_example_def)
  have h5: "fst (smooth wrap_blur3 ms_grid ''median'' 3)
        = Inl (NotImplementedError ''Smoothing method median was chosen, but is not implemented.'')"
    by (simp add: smooth_def ms_grid_def)
  have upd: "args_example\<lparr>method_option := ''median'', strength := Text ''3''\<rparr> = args_example"
    by (simp add: args_example_def)
  from main_calls_smooth_with_defaults
    [where gf = wrap_blur3 and fs = fs_example and a = args_example and m = "''median''"
       and s = "Text ''3''" and ms = ms_grid]
  have c: "main wrap_blur3 fs_example args_example =
        (case smooth wrap_blur3 ms_grid ''gaussian'' 1 of
           (Inl e, ms') \<Rightarrow> (Inl e, fs_example)
         | (Inr u, ms') \<Rightarrow> (Inr (), to_npy fs_example (output_filename args_example) ms'))"
    using h1 h2 unfolding upd by blast
  have o: "output_filename args_example = ''cell_run1_smoothed.npy''"
    by (simp add: output_filename_def filename_additive_def drop_last4_def args_example_def)
  have v: "main wrap_blur3 fs_example args_example =
        (Inr (), fs_example(''cell_run1_smoothed.npy'' \<mapsto>
           ms_grid\<lparr>encoding := \<lparr>shape = [1, 2, 2, 3],
                                    data = [1, 0, 0, 1, 0, 0, 1, 0, 0, 1, 0, 0]\<rparr>\<rparr>))"
    unfolding c smooth_ms_grid o by (simp add: to_npy_def)
  show ?thesis
    by (intro conjI) (fact h1, fact h2, fact h3, fact h4, fact h5, fact c, fact v)
qed

section \<open>The smoother\<close>

text \<open>
  C1: for a well-formed microstructure that has phases, at least one of them, and a
  library filter that keeps shapes, \<open>smooth\<close> with the method \<open>gaussian\<close> completes, and
  in the encoding it writes back the sum across the phase axis is 1 at every spatial
  location.
\<close>

theorem smooth_conserves_phase_sum:
  assumes "wf_ms ms" and "has_phases ms" and "0 < num_phases ms" and "filter_ok gf"
  shows "\<exists>ms'. smooth gf ms ''gaussian'' sigma = (Inr (), ms')
           \<and> shape (encoding ms') = shape (encoding ms)
           \<and> (\<forall>i<prod_list (spatial_shape ms). phase_sum (encoding ms') i = 1)"
proof -
  let ?enc = "\<lparr>shape = spatial_shape ms @ [num_phases ms], data = data (encoding ms)\<rparr>"
  from smooth_gaussian_ok [OF assms(4,1,2,3), of sigma]
  obtain L out where r: "L < num_phases ms"
     "smooth gf ms ''gaussian'' sigma =
         (Inr (), ms\<lparr>encoding := \<lparr>shape = shape (encoding ms), data = data out\<rparr>\<rparr>)"
     "wf_array out" "shape out = spatial_shape ms @ [num_phases ms]"
     "\<forall>q<num_phases ms. getitem_last out q =
            (if q = L then complement_of_others (gaussian_smoothing gf) sigma ?enc L
             else gaussian_smoothing gf (getitem_last ?enc q) sigma)"
    by blast
  have shx: "shape (encoding ms) = 1 # spatial_shape ms @ [num_phases ms]"
    using assms(1) by (simp add: wf_ms_def)
  have "phase_sum \<lparr>shape = shape (encoding ms), data = data out\<rparr> i = 1"
    if "i < prod_list (spatial_shape ms)" for i
    unfolding shx
    by (rule phase_sum_complement [OF r(3,4,1) that _ r(5)]) simp
  then show ?thesis
    using r(2) by simp
qed

theorem smooth_conserves_phase_sum_witness:
  "wf_ms ms_grid \<and> has_phases ms_grid \<and> 0 < num_phases ms_grid \<and> filter_ok wrap_blur3
   \<and> (\<exists>ms'. smooth wrap_blur3 ms_grid ''gaussian'' 1 = (Inr (), ms')
           \<and> shape (encoding ms') = shape (encoding ms_grid)
           \<and> (\<forall>i<prod_list (spatial_shape ms_grid). phase_sum (encoding ms') i = 1))"
proof -
  have h1: "wf_ms ms_grid" by (rule wf_ms_grid)
  have h2: "has_phases ms_grid" by (simp add: ms_grid_def)
  have h3: "0 < num_phases ms_grid" by (simp add: ms_grid_def num_phases_def)
  note c = smooth_conserves_phase_sum [OF h1 h2 h3 filter_ok_wrap_blur3, of 1]
  show ?thesis
    by (intro conjI) (fact h1, fact h2, fact h3, fact filter_ok_wrap_blur3, fact c)
qed

text \<open>
  C2: the phase \<open>smooth\<close> treats as dominant is what \<open>np.argmax\<close> returns on the vector
  of per-phase averages: an index of a largest average such that every earlier index
  has a strictly smaller one. It is this phase whose written-back slice is the
  complement, while every other slice is the filtered input slice.
\<close>

theorem smooth_dominant_phase_is_first_argmax:
  assumes "wf_ms ms" and "has_phases ms" and "0 < num_phases ms" and "filter_ok gf"
    and "getitem0 (encoding ms) = Inr enc"
  shows "\<exists>L ms' enc'.
           np_argmax (volume_fractions enc) = Inr L \<and> L < num_phases ms
         \<and> (\<forall>j<num_phases ms. volume_fractions enc ! j \<le> volume_fractions enc ! L)
         \<and> (\<forall>j<L. volume_fractions enc ! j < volume_fractions enc ! L)
         \<and> smooth gf ms ''gaussian'' sigma = (Inr (), ms')
         \<and> getitem0 (encoding ms') = Inr enc'
         \<and> getitem_last enc' L = complement_of_others (gaussian_smoothing gf) sigma enc L
         \<and> (\<forall>q<num_phases ms. q \<noteq> L \<longrightarrow>
               getitem_last enc' q = gaussian_smoothing gf (getitem_last enc q) sigma)"
proof -
  have enc: "enc = \<lparr>shape = spatial_shape ms @ [num_phases ms], data = data (encoding ms)\<rparr>"
    using assms(5) getitem0_wf [OF assms(1)] by simp
  from smooth_gaussian_ok [OF assms(4,1,2,3), of sigma]
  obtain L out where r: "np_argmax (volume_fractions enc) = Inr L" "L < num_phases ms"
     "smooth gf ms ''gaussian'' sigma =
         (Inr (), ms\<lparr>encoding := \<lparr>shape = shape (encoding ms), data = data out\<rparr>\<rparr>)"
     "wf_array out" "shape out = spatial_shape ms @ [num_phases ms]"
     "\<forall>q<num_phases ms. getitem_last out q =
            (if q = L then complement_of_others (gaussian_smoothing gf) sigma enc L
             else gaussian_smoothing gf (getitem_last enc q) sigma)"
    unfolding enc by blast
  have len: "length (volume_fractions enc) = num_phases ms"
    by (simp add: volume_fractions_def enc)
  then have "volume_fractions enc \<noteq> []"
    using assms(3) by auto
  from np_argmax_first_max [OF this] r(1) len
  have mx: "\<forall>j<num_phases ms. volume_fractions enc ! j \<le> volume_fractions enc ! L"
    and first: "\<forall>j<L. volume_fractions enc ! j < volume_fractions enc ! L"
    by auto
  let ?ms' = "ms\<lparr>encoding := \<lparr>shape = shape (encoding ms), data = data out\<rparr>\<rparr>"
  have g0: "getitem0 (encoding ?ms') = Inr out"
    using getitem0_result [OF assms(1) r(4,5)] by simp
  have dom: "getitem_last out L = complement_of_others (gaussian_smoothing gf) sigma enc L"
    using r(2,6) by simp
  have oth: "\<forall>q<num_phases ms. q \<noteq> L \<longrightarrow>
               getitem_last out q = gaussian_smoothing gf (getitem_last enc q) sigma"
    using r(6) by simp
  show ?thesis
    by (intro exI conjI) (fact r(1), fact r(2), fact mx, fact first, fact r(3), fact g0, fact dom, fact oth)
qed

theorem smooth_dominant_phase_is_first_argmax_witness:
  "wf_ms ms_tie \<and> has_phases ms_tie \<and> 0 < num_phases ms_tie \<and> filter_ok wrap_blur3
   \<and> getitem0 (encoding ms_tie) = Inr \<lparr>shape = [2, 2, 2], data = [1, 0, 0, 1, 1, 0, 0, 1]\<rparr>
   \<and> volume_fractions \<lparr>shape = [2, 2, 2], data = [1, 0, 0, 1, 1, 0, 0, 1]\<rparr> = [1 / 2, 1 / 2]
   \<and> np_argmax (volume_fractions \<lparr>shape = [2, 2, 2], data = [1, 0, 0, 1, 1, 0, 0, 1]\<rparr>) = Inr 0
   \<and> (\<exists>L ms' enc'.
           np_argmax (volume_fractions \<lparr>shape = [2, 2, 2], data = [1, 0, 0, 1, 1, 0, 0, 1]\<rparr>)
             = Inr L
         \<and> L < num_phases ms_tie
         \<and> (\<forall>j<num_phases ms_tie.
               volume_fractions \<lparr>shape = [2, 2, 2], data = [1, 0, 0, 1, 1, 0, 0, 1]\<rparr> ! j
                 \<le> volume_fractions \<lparr>shape = [2, 2, 2], data = [1, 0, 0, 1, 1, 0, 0, 1]\<rparr> ! L)
         \<and> (\<forall>j<L.
               volume_fractions \<lparr>shape = [2, 2, 2], data = [1, 0, 0, 1, 1, 0, 0, 1]\<rparr> ! j
                 < volume_fractions \<lparr>shape = [2, 2, 2], data = [1, 0, 0, 1, 1, 0, 0, 1]\<rparr> ! L)
         \<and> smooth wrap_blur3 ms_tie ''gaussian'' 1 = (Inr (), ms')
         \<and> getitem0 (encoding ms') = Inr enc'
         \<and> getitem_last enc' L =
             complement_of_others (gaussian_smoothing wrap_blur3) 1
               \<lparr>shape = [2, 2, 2], data = [1, 0, 0, 1, 1, 0, 0, 1]\<rparr> L
         \<and> (\<forall>q<num_phases ms_tie. q \<noteq> L \<longrightarrow>
               getitem_last enc' q =
                 gaussian_smoothing wrap_blur3
                   (getitem_last \<lparr>shape = [2, 2, 2], data = [1, 0, 0, 1, 1, 0, 0, 1]\<rparr> q) 1))"
proof -
  let ?enc = "\<lparr>shape = [2, 2, 2], data = [1, 0, 0, 1, 1, 0, 0, 1 :: real]\<rparr>"
  have h1: "wf_ms ms_tie" by (rule wf_ms_tie)
  have h2: "has_phases ms_tie" by (simp add: ms_tie_def)
  have h3: "0 < num_phases ms_tie" by (simp add: ms_tie_def num_phases_def)
  have h5: "getitem0 (encoding ms_tie) = Inr ?enc"
    by (simp add: ms_tie_def getitem0_def)
  have v: "volume_fractions ?enc = [1 / 2, 1 / 2]" by code_simp
  have m: "np_argmax (volume_fractions ?enc) = Inr 0" by code_simp
  note c = smooth_dominant_phase_is_first_argmax [OF h1 h2 h3 filter_ok_wrap_blur3 h5, of 1]
  show ?thesis
    by (intro conjI)
       (fact h1, fact h2, fact h3, fact filter_ok_wrap_blur3, fact h5, fact v, fact m, fact c)
qed

text \<open>
  C3: the field that the loop obtains by starting from all ones and subtracting each
  other phase's smoothed slice in phase order is one minus the sum of all other
  smoothed slices, and that is the dominant phase's slice in the result.
\<close>

theorem running_subtraction_is_complement:
  assumes "filter_wf f" and "wf_ms ms" and "0 < num_phases ms"
    and "getitem0 (encoding ms) = Inr enc"
    and "np_argmax (volume_fractions enc) = Inr L"
  shows "(\<exists>sm. smooth_loop f s enc L [0..<last (shape enc)]
                 (np_zeros (shape enc), np_ones (spatial_shape ms))
               = Inr (sm, complement_of_others f s enc L))
       \<and> (\<exists>r enc'. smooth_multiphase (encoding ms) ms f s = Inr r
             \<and> getitem0 r = Inr enc'
             \<and> getitem_last enc' L = complement_of_others f s enc L)"
proof -
  let ?sp = "spatial_shape ms" and ?P = "num_phases ms"
  have enc: "enc = \<lparr>shape = ?sp @ [?P], data = data (encoding ms)\<rparr>"
    using assms(4) getitem0_wf [OF assms(2)] by simp
  have she: "shape enc = ?sp @ [?P]" by (simp add: enc)
  have wfe: "wf_array enc"
    using assms(2) by (simp add: enc wf_ms_def wf_array_def)
  have z: "wf_array (np_zeros (shape enc))" "shape (np_zeros (shape enc)) = ?sp @ [?P]"
    using she by (simp_all add: wf_np_zeros) (simp add: np_zeros_def)
  have o: "wf_array (np_ones ?sp)" "shape (np_ones ?sp) = ?sp"
    by (simp_all add: wf_np_ones) (simp add: np_ones_def)
  have ps: "\<forall>p\<in>set [0..<?P]. p < ?P" "distinct [0..<?P]" by simp_all
  from smooth_loop_ok [OF assms(1) wfe she z o ps, of s L]
  obtain sm lif where loop:
      "smooth_loop f s enc L [0..<?P] (np_zeros (shape enc), np_ones ?sp) = Inr (sm, lif)"
      "shape lif = ?sp"
      "data lif = map (\<lambda>i. data (np_ones ?sp) ! i
                       - sum_list (map (\<lambda>p. data (f (getitem_last enc p) s) ! i)
                                     (filter (\<lambda>p. p \<noteq> L) [0..<?P])))
                  [0..<prod_list ?sp]"
    by blast
  have "data lif = map (\<lambda>i. 1 - sum_of_others f s enc L i) [0..<prod_list ?sp]"
    unfolding loop(3) by (rule map_cong) (simp_all add: np_ones_def sum_of_others_def she)
  then have lif: "lif = complement_of_others f s enc L"
    using loop(2) she by (simp add: complement_of_others_def)
  have first: "\<exists>sm. smooth_loop f s enc L [0..<last (shape enc)]
                 (np_zeros (shape enc), np_ones (spatial_shape ms))
               = Inr (sm, complement_of_others f s enc L)"
    using loop(1) lif she by auto
  from smooth_multiphase_ok [OF assms(1-3), of s]
  obtain L' out where r: "np_argmax (volume_fractions enc) = Inr L'" "L' < ?P"
     "smooth_multiphase (encoding ms) ms f s = Inr \<lparr>shape = shape (encoding ms), data = data out\<rparr>"
     "wf_array out" "shape out = ?sp @ [?P]"
     "\<forall>q<?P. getitem_last out q =
            (if q = L' then complement_of_others f s enc L' else f (getitem_last enc q) s)"
    unfolding enc by blast
  have L: "L' = L" using r(1) assms(5) by simp
  have "getitem_last out L = complement_of_others f s enc L"
    using r(2,6) L by simp
  then have second: "\<exists>r enc'. smooth_multiphase (encoding ms) ms f s = Inr r
             \<and> getitem0 r = Inr enc'
             \<and> getitem_last enc' L = complement_of_others f s enc L"
    using r(3) getitem0_result [OF assms(2) r(4,5)] by blast
  show ?thesis
    using first second by (rule conjI)
qed

theorem running_subtraction_is_complement_witness:
  "filter_wf (gaussian_smoothing wrap_blur3) \<and> wf_ms ms_grid \<and> 0 < num_phases ms_grid
   \<and> getitem0 (encoding ms_grid)
       = Inr \<lparr>shape = [2, 2, 3], data = [1, 0, 0, 1, 0, 0, 0, 1, 0, 0, 0, 1]\<rparr>
   \<and> np_argmax (volume_fractions
         \<lparr>shape = [2, 2, 3], data = [1, 0, 0, 1, 0, 0, 0, 1, 0, 0, 0, 1]\<rparr>) = Inr 0
   \<and> (\<exists>sm. smooth_loop (gaussian_smoothing wrap_blur3) 1
               \<lparr>shape = [2, 2, 3], data = [1, 0, 0, 1, 0, 0, 0, 1, 0, 0, 0, 1]\<rparr> 0
               [0..<last (shape \<lparr>shape = [2, 2, 3],
                                 data = [1, 0, 0, 1, 0, 0, 0, 1, 0, 0, 0, 1 :: real]\<rparr>)]
               (np_zeros (shape \<lparr>shape = [2, 2, 3],
                                 data = [1, 0, 0, 1, 0, 0, 0, 1, 0, 0, 0, 1 :: real]\<rparr>),
                np_ones (spatial_shape ms_grid))
             = Inr (sm, complement_of_others (gaussian_smoothing wrap_blur3) 1
                          \<lparr>shape = [2, 2, 3], data = [1, 0, 0, 1, 0, 0, 0, 1, 0, 0, 0, 1]\<rparr> 0))
   \<and> (\<exists>r enc'. smooth_multiphase (encoding ms_grid) ms_grid (gaussian_smoothing wrap_blur3) 1
                  = Inr r
             \<and> getitem0 r = Inr enc'
             \<and> getitem_last enc' 0 =
                 complement_of_others (gaussian_smoothing wrap_blur3) 1
                   \<lparr>shape = [2, 2, 3], data = [1, 0, 0, 1, 0, 0, 0, 1, 0, 0, 0, 1]\<rparr> 0)"
proof -
  let ?enc = "\<lparr>shape = [2, 2, 3], data = [1, 0, 0, 1, 0, 0, 0, 1, 0, 0, 0, 1 :: real]\<rparr>"
  have h1: "filter_wf (gaussian_smoothing wrap_blur3)"
    by (rule filter_wf_gaussian_smoothing [OF filter_ok_wrap_blur3])
  have h2: "wf_ms ms_grid" by (rule wf_ms_grid)
  have h3: "0 < num_phases ms_grid" by (simp add: ms_grid_def num_phases_def)
  have h4: "getitem0 (encoding ms_grid) = Inr ?enc"
    by (simp add: ms_grid_def getitem0_def)
  have h5: "np_argmax (volume_fractions ?enc) = Inr 0" by code_simp
  note c = running_subtraction_is_complement [OF h1 h2 h3 h4 h5, of 1]
  show ?thesis
    using h1 h2 h3 h4 h5 c by (simp only: simp_thms)
qed

section \<open>The Gaussian filter\<close>

lemma shape_gaussian_filter1d [simp]: "shape (gaussian_filter1d a sigma axis mode) = shape a"
  and length_gaussian_filter1d [simp]:
    "length (data (gaussian_filter1d a sigma axis mode)) = length (data a)"
  by (simp_all add: gaussian_filter1d_def)

lemma fold_gaussian_filter1d_shape:
  "shape (fold (\<lambda>axis b. gaussian_filter1d b sigma axis mode) axes a) = shape a
   \<and> length (data (fold (\<lambda>axis b. gaussian_filter1d b sigma axis mode) axes a)) = length (data a)"
  by (induction axes arbitrary: a) simp_all

lemma filter_ok_gaussian_filter: "filter_ok gaussian_filter"
  by (simp add: filter_ok_def gaussian_filter_def wf_array_def fold_gaussian_filter1d_shape)

lemma nth_gaussian_filter1d:
  "j < length (data a) \<Longrightarrow>
   data (gaussian_filter1d a sigma axis mode) ! j = correlate1d_at mode sigma a axis j"
  by (simp add: gaussian_filter1d_def)

lemma wrap_index_less: "0 < n \<Longrightarrow> wrap_index n c d < n"
  by (simp add: wrap_index_def nat_less_iff)

lemma correlate_2d_axis0:
  assumes "shape a = [n0, n1]" "i < n0" "j < n1"
  shows "correlate1d_at Wrap sigma a 0 (i * n1 + j) =
           (\<Sum>d = - int (kernel_radius sigma)..int (kernel_radius sigma).
              gaussian_kernel1d sigma d * data a ! (wrap_index n0 i d * n1 + j))"
  using assms by (simp add: correlate1d_at_def extend_index_def wrap_index_def add.commute)

lemma correlate_2d_axis1:
  assumes "shape a = [n0, n1]" "i < n0" "j < n1"
  shows "correlate1d_at Wrap sigma a 1 (i * n1 + j) =
           (\<Sum>d = - int (kernel_radius sigma)..int (kernel_radius sigma).
              gaussian_kernel1d sigma d * data a ! (i * n1 + wrap_index n1 j d))"
  using assms by (simp add: correlate1d_at_def extend_index_def wrap_index_def)


lemma sum_product_swap:
  fixes g :: "int \<Rightarrow> real"
  shows "(\<Sum>d1\<in>A. g d1 * (\<Sum>d0\<in>B. g d0 * f d0 d1)) = (\<Sum>d0\<in>B. \<Sum>d1\<in>A. g d0 * g d1 * f d0 d1)"
proof -
  have "(\<Sum>d1\<in>A. g d1 * (\<Sum>d0\<in>B. g d0 * f d0 d1)) = (\<Sum>d1\<in>A. \<Sum>d0\<in>B. g d0 * g d1 * f d0 d1)"
    by (simp add: sum_distrib_left mult_ac)
  also have "\<dots> = (\<Sum>d0\<in>B. \<Sum>d1\<in>A. g d0 * g d1 * f d0 d1)"
    by (rule sum.swap)
  finally show ?thesis .
qed

lemma gaussian_filter_2d:
  assumes wf: "wf_array a" and sh: "shape a = [n0, n1]" and i: "i < n0" and j: "j < n1"
  shows "data (gaussian_filter a sigma Wrap) ! (i * n1 + j) =
           (\<Sum>d0 = - int (kernel_radius sigma)..int (kernel_radius sigma).
            \<Sum>d1 = - int (kernel_radius sigma)..int (kernel_radius sigma).
              gaussian_kernel1d sigma d0 * gaussian_kernel1d sigma d1
                * data a ! (wrap_index n0 i d0 * n1 + wrap_index n1 j d1))"
proof -
  let ?R = "{- int (kernel_radius sigma)..int (kernel_radius sigma)}"
  let ?g = "gaussian_kernel1d sigma"
  let ?p0 = "gaussian_filter1d a sigma 0 Wrap"
  have len: "length (data a) = n0 * n1"
    using wf sh by (simp add: wf_array_def)
  have idx: "i' * n1 + j' < length (data a)" if "i' < n0" "j' < n1" for i' j'
    unfolding len by (rule index_bound [OF that(2) that(1)])
  have gf: "gaussian_filter a sigma Wrap = gaussian_filter1d ?p0 sigma 1 Wrap"
    using sh by (simp add: gaussian_filter_def numeral_2_eq_2 upt_rec)
  have p0: "data ?p0 ! (i' * n1 + j') = (\<Sum>d\<in>?R. ?g d * data a ! (wrap_index n0 i' d * n1 + j'))"
    if "i' < n0" "j' < n1" for i' j'
    using nth_gaussian_filter1d [OF idx [OF that]] correlate_2d_axis0 [OF sh that] by simp
  have "data (gaussian_filter a sigma Wrap) ! (i * n1 + j) = correlate1d_at Wrap sigma ?p0 1 (i * n1 + j)"
    unfolding gf by (rule nth_gaussian_filter1d) (simp add: idx [OF i j])
  also have "\<dots> = (\<Sum>d1\<in>?R. ?g d1 * data ?p0 ! (i * n1 + wrap_index n1 j d1))"
    by (rule correlate_2d_axis1 [OF _ i j]) (simp add: sh)
  also have "\<dots> = (\<Sum>d1\<in>?R. ?g d1 * (\<Sum>d0\<in>?R. ?g d0 * data a ! (wrap_index n0 i d0 * n1 + wrap_index n1 j d1)))"
  proof (rule sum.cong [OF refl])
    fix d1 assume "d1 \<in> ?R"
    have "wrap_index n1 j d1 < n1" using j by (intro wrap_index_less) simp
    from p0 [OF i this]
    show "?g d1 * data ?p0 ! (i * n1 + wrap_index n1 j d1) =
          ?g d1 * (\<Sum>d0\<in>?R. ?g d0 * data a ! (wrap_index n0 i d0 * n1 + wrap_index n1 j d1))"
      by simp
  qed
  also have "\<dots> = (\<Sum>d0\<in>?R. \<Sum>d1\<in>?R. ?g d0 * ?g d1
                * data a ! (wrap_index n0 i d0 * n1 + wrap_index n1 j d1))"
    by (rule sum_product_swap)
  finally show ?thesis .
qed

lemma index3_bound:
  assumes "i < n0" "j < n1" "k < (n2::nat)"
  shows "(i * n1 + j) * n2 + k < n0 * n1 * n2"
proof -
  have "i * n1 + j < n0 * n1" by (rule index_bound [OF assms(2,1)])
  from index_bound [OF assms(3) this] show ?thesis .
qed

lemma index3_div0:
  assumes "j < n1" "k < (n2::nat)"
  shows "((i * n1 + j) * n2 + k) div (n1 * n2) = i"
proof -
  have b: "j * n2 + k < n1 * n2" by (rule index_bound [OF assms(2,1)])
  have eq: "(i * n1 + j) * n2 + k = i * (n1 * n2) + (j * n2 + k)"
    by (simp add: algebra_simps)
  have "p < P \<Longrightarrow> (i * P + p) div P = i" for p P :: nat
    by simp
  from this [OF b] show ?thesis unfolding eq .
qed

lemma correlate_3d_axis0:
  assumes "shape a = [n0, n1, n2]" "i < n0" "j < n1" "k < n2"
  shows "correlate1d_at Wrap sigma a 0 ((i * n1 + j) * n2 + k) =
           (\<Sum>d = - int (kernel_radius sigma)..int (kernel_radius sigma).
              gaussian_kernel1d sigma d * data a ! ((wrap_index n0 i d * n1 + j) * n2 + k))"
proof -
  have d: "((i * n1 + j) * n2 + k) div (n1 * n2) = i"
    by (rule index3_div0 [OF assms(3,4)])
  have e: "(i * n1 + j) * n2 + k - i * (n1 * n2) + c * (n1 * n2) = (c * n1 + j) * n2 + k" for c
    by (simp add: algebra_simps)
  show ?thesis
    using assms(1,2) by (simp add: correlate1d_at_def extend_index_def wrap_index_def d e)
qed

lemma correlate_3d_axis1:
  assumes "shape a = [n0, n1, n2]" "i < n0" "j < n1" "k < n2"
  shows "correlate1d_at Wrap sigma a 1 ((i * n1 + j) * n2 + k) =
           (\<Sum>d = - int (kernel_radius sigma)..int (kernel_radius sigma).
              gaussian_kernel1d sigma d * data a ! ((i * n1 + wrap_index n1 j d) * n2 + k))"
proof -
  have d: "((i * n1 + j) * n2 + k) div n2 = i * n1 + j"
    using assms(4) by simp
  have e: "(i * n1 + j) * n2 + k - j * n2 + c * n2 = (i * n1 + c) * n2 + k" for c
    by (simp add: algebra_simps)
  show ?thesis
    using assms(1,3) by (simp add: correlate1d_at_def extend_index_def wrap_index_def d e)
qed

lemma correlate_3d_axis2:
  assumes "shape a = [n0, n1, n2]" "i < n0" "j < n1" "k < n2"
  shows "correlate1d_at Wrap sigma a 2 ((i * n1 + j) * n2 + k) =
           (\<Sum>d = - int (kernel_radius sigma)..int (kernel_radius sigma).
              gaussian_kernel1d sigma d * data a ! ((i * n1 + j) * n2 + wrap_index n2 k d))"
  using assms(1,4) by (simp add: correlate1d_at_def extend_index_def wrap_index_def)

lemma sum_product_swap3:
  fixes g :: "int \<Rightarrow> real"
  shows "(\<Sum>d2\<in>A. g d2 * (\<Sum>d1\<in>A. g d1 * (\<Sum>d0\<in>A. g d0 * f d0 d1 d2)))
           = (\<Sum>d0\<in>A. \<Sum>d1\<in>A. \<Sum>d2\<in>A. g d0 * g d1 * g d2 * f d0 d1 d2)"
proof -
  have "(\<Sum>d2\<in>A. g d2 * (\<Sum>d1\<in>A. g d1 * (\<Sum>d0\<in>A. g d0 * f d0 d1 d2)))
          = (\<Sum>d2\<in>A. \<Sum>d1\<in>A. \<Sum>d0\<in>A. g d0 * g d1 * g d2 * f d0 d1 d2)"
    by (simp add: sum_distrib_left mult_ac)
  also have "\<dots> = (\<Sum>d2\<in>A. \<Sum>d0\<in>A. \<Sum>d1\<in>A. g d0 * g d1 * g d2 * f d0 d1 d2)"
    by (rule sum.cong [OF refl]) (rule sum.swap)
  also have "\<dots> = (\<Sum>d0\<in>A. \<Sum>d2\<in>A. \<Sum>d1\<in>A. g d0 * g d1 * g d2 * f d0 d1 d2)"
    by (rule sum.swap)
  also have "\<dots> = (\<Sum>d0\<in>A. \<Sum>d1\<in>A. \<Sum>d2\<in>A. g d0 * g d1 * g d2 * f d0 d1 d2)"
    by (rule sum.cong [OF refl]) (rule sum.swap)
  finally show ?thesis .
qed

lemma gaussian_filter_3d:
  assumes wf: "wf_array a" and sh: "shape a = [n0, n1, n2]"
    and i: "i < n0" and j: "j < n1" and k: "k < n2"
  shows "data (gaussian_filter a sigma Wrap) ! ((i * n1 + j) * n2 + k) =
           (\<Sum>d0 = - int (kernel_radius sigma)..int (kernel_radius sigma).
            \<Sum>d1 = - int (kernel_radius sigma)..int (kernel_radius sigma).
            \<Sum>d2 = - int (kernel_radius sigma)..int (kernel_radius sigma).
              gaussian_kernel1d sigma d0 * gaussian_kernel1d sigma d1 * gaussian_kernel1d sigma d2
                * data a ! ((wrap_index n0 i d0 * n1 + wrap_index n1 j d1) * n2
                              + wrap_index n2 k d2))"
proof -
  let ?R = "{- int (kernel_radius sigma)..int (kernel_radius sigma)}"
  let ?g = "gaussian_kernel1d sigma"
  let ?p0 = "gaussian_filter1d a sigma 0 Wrap"
  let ?p1 = "gaussian_filter1d ?p0 sigma 1 Wrap"
  have len: "length (data a) = n0 * n1 * n2"
    using wf sh by (simp add: wf_array_def mult.assoc)
  have idx: "(i' * n1 + j') * n2 + k' < length (data a)" if "i' < n0" "j' < n1" "k' < n2" for i' j' k'
    unfolding len by (rule index3_bound [OF that])
  have gf: "gaussian_filter a sigma Wrap = gaussian_filter1d ?p1 sigma 2 Wrap"
    using sh by (simp add: gaussian_filter_def numeral_3_eq_3 numeral_2_eq_2 upt_rec)
  have w0: "wrap_index n0 i d < n0" and w1: "wrap_index n1 j d < n1" and w2: "wrap_index n2 k d < n2" for d
    using i j k by (simp_all add: wrap_index_less)
  have p0: "data ?p0 ! ((i' * n1 + j') * n2 + k')
              = (\<Sum>d\<in>?R. ?g d * data a ! ((wrap_index n0 i' d * n1 + j') * n2 + k'))"
    if "i' < n0" "j' < n1" "k' < n2" for i' j' k'
    using nth_gaussian_filter1d [OF idx [OF that]] correlate_3d_axis0 [OF sh that] by simp
  have sh0: "shape ?p0 = [n0, n1, n2]" and sh1: "shape ?p1 = [n0, n1, n2]"
    by (simp_all add: sh)
  have p1: "data ?p1 ! ((i' * n1 + j') * n2 + k')
              = (\<Sum>d\<in>?R. ?g d * data ?p0 ! ((i' * n1 + wrap_index n1 j' d) * n2 + k'))"
    if "i' < n0" "j' < n1" "k' < n2" for i' j' k'
  proof -
    have "(i' * n1 + j') * n2 + k' < length (data ?p0)"
      using idx [OF that] by simp
    from nth_gaussian_filter1d [OF this] correlate_3d_axis1 [OF sh0 that]
    show ?thesis by simp
  qed
  have "data (gaussian_filter a sigma Wrap) ! ((i * n1 + j) * n2 + k)
          = correlate1d_at Wrap sigma ?p1 2 ((i * n1 + j) * n2 + k)"
    unfolding gf by (rule nth_gaussian_filter1d) (simp add: idx [OF i j k])
  also have "\<dots> = (\<Sum>d2\<in>?R. ?g d2 * data ?p1 ! ((i * n1 + j) * n2 + wrap_index n2 k d2))"
    by (rule correlate_3d_axis2 [OF sh1 i j k])
  also have "\<dots> = (\<Sum>d2\<in>?R. ?g d2 * (\<Sum>d1\<in>?R. ?g d1 *
                       data ?p0 ! ((i * n1 + wrap_index n1 j d1) * n2 + wrap_index n2 k d2)))"
    by (rule sum.cong [OF refl]) (simp only: p1 [OF i j w2])
  also have "\<dots> = (\<Sum>d2\<in>?R. ?g d2 * (\<Sum>d1\<in>?R. ?g d1 * (\<Sum>d0\<in>?R. ?g d0 *
                       data a ! ((wrap_index n0 i d0 * n1 + wrap_index n1 j d1) * n2
                                   + wrap_index n2 k d2))))"
    by (simp only: p0 [OF i w1 w2])
  also have "\<dots> = (\<Sum>d0\<in>?R. \<Sum>d1\<in>?R. \<Sum>d2\<in>?R. ?g d0 * ?g d1 * ?g d2
                * data a ! ((wrap_index n0 i d0 * n1 + wrap_index n1 j d1) * n2
                              + wrap_index n2 k d2))"
    by (rule sum_product_swap3)
  finally show ?thesis .
qed

lemma kernel_norm_pos:
  "0 < (\<Sum>e = - int (kernel_radius sigma)..int (kernel_radius sigma).
          exp (- (of_int e)\<^sup>2 / (2 * sigma\<^sup>2)) :: real)"
  by (rule sum_pos) simp_all

lemma gaussian_kernel1d_pos: "0 < gaussian_kernel1d sigma d"
  unfolding gaussian_kernel1d_def by (intro divide_pos_pos kernel_norm_pos) simp

lemma gaussian_kernel1d_sum:
  "(\<Sum>d = - int (kernel_radius sigma)..int (kernel_radius sigma). gaussian_kernel1d sigma d) = 1"
  using kernel_norm_pos [of sigma]
  unfolding gaussian_kernel1d_def sum_divide_distrib [symmetric] by simp

lemma gaussian_kernel1d_sym: "gaussian_kernel1d sigma (- d) = gaussian_kernel1d sigma d"
  by (simp add: gaussian_kernel1d_def)

lemma gaussian_kernel1d_shape:
  "gaussian_kernel1d sigma d = gaussian_kernel1d sigma 0 * exp (- (of_int d)\<^sup>2 / (2 * sigma\<^sup>2))"
  by (simp add: gaussian_kernel1d_def)

lemma gaussian_smoothing_rounds:
  assumes "wf_array a" and "filter_ok gf"
  shows "shape (gaussian_smoothing gf a sigma) = shape a"
    and "wf_array (gaussian_smoothing gf a sigma)"
    and "j < length (data a) \<Longrightarrow>
           data (gaussian_smoothing gf a sigma) ! j = rint (data (gf a sigma Wrap) ! j)"
proof -
  have b: "wf_array (gf a sigma Wrap)" "shape (gf a sigma Wrap) = shape a"
    using assms by (simp_all add: filter_ok_def)
  then have len: "length (data (gf a sigma Wrap)) = length (data a)"
    using assms(1) by (simp add: wf_array_def)
  show "shape (gaussian_smoothing gf a sigma) = shape a"
    using b(2) by (simp add: gaussian_smoothing_def np_round_def)
  show "wf_array (gaussian_smoothing gf a sigma)"
    using b(1) by (simp add: gaussian_smoothing_def np_round_def wf_array_def)
  show "data (gaussian_smoothing gf a sigma) ! j = rint (data (gf a sigma Wrap) ! j)"
    if "j < length (data a)"
    using that len by (simp add: gaussian_smoothing_def np_round_def)
qed

lemma correlate1d_at_radius0:
  assumes "kernel_radius sigma = 0"
  shows "correlate1d_at Wrap sigma a axis j = data a ! j"
proof -
  let ?s = "prod_list (drop (Suc axis) (shape a))" and ?n = "shape a ! axis"
  let ?c = "(j div ?s) mod ?n"
  have g: "gaussian_kernel1d sigma 0 = 1"
    by (simp add: gaussian_kernel1d_def assms)
  have "?c * ?s \<le> (j div ?s) * ?s"
    by (intro mult_le_mono1) simp
  also have "\<dots> \<le> j" by simp
  finally have le: "?c * ?s \<le> j" .
  have w: "nat (int ?c mod int ?n) = ?c"
    by (simp flip: zmod_int)
  show ?thesis
    using le by (simp add: correlate1d_at_def Let_def assms g extend_index_def w)
qed

lemma gaussian_filter_radius0:
  assumes "kernel_radius sigma = 0"
  shows "gaussian_filter a sigma Wrap = a"
proof -
  have one: "gaussian_filter1d b sigma axis Wrap = b" for b axis
  proof -
    have "map (correlate1d_at Wrap sigma b axis) [0..<length (data b)] = data b"
      by (intro nth_equalityI) (simp_all add: correlate1d_at_radius0 [OF assms])
    then show ?thesis by (simp add: gaussian_filter1d_def)
  qed
  have "fold (\<lambda>axis b. gaussian_filter1d b sigma axis Wrap) axes a = a" for axes
    by (induction axes) (simp_all add: one)
  then show ?thesis by (simp add: gaussian_filter_def)
qed

lemma gaussian_smoothing_small_sigma:
  "gaussian_smoothing gaussian_filter \<lparr>shape = [2, 2], data = [2 / 5, 3 / 5, 3 / 2, 5 / 2]\<rparr> (1 / 10)
     = \<lparr>shape = [2, 2], data = [0, 1, 2, 2]\<rparr>"
proof -
  have "kernel_radius (1 / 10) = 0" by (simp add: kernel_radius_def)
  from gaussian_filter_radius0 [OF this] show ?thesis
    by (simp add: gaussian_smoothing_def np_round_def rint_def)
qed

text \<open>
  C6: for a positive strength, \<open>gaussian_smoothing\<close> with the library's filter returns an
  array of the input's shape. On a two-dimensional and on a three-dimensional field
  each value is the rounding to the nearest integer of the sum, over all offsets up to
  the kernel radius along every axis, of the input at the position shifted by the
  offsets, every coordinate taken modulo the extent of its axis, weighted by the
  product of the kernel weights of the offsets. The weights are the same for every
  axis, positive, symmetric, proportional to the Gaussian of standard deviation
  \<open>sigma\<close>, and sum to 1.
\<close>

theorem gaussian_smoothing_rounds_wrapped_blur:
  assumes "0 < sigma"
    and "wf_array a" and "shape a = [n0, n1]"
    and "wf_array b" and "shape b = [m0, m1, m2]"
  shows "shape (gaussian_smoothing gaussian_filter a sigma) = [n0, n1]
       \<and> wf_array (gaussian_smoothing gaussian_filter a sigma)
       \<and> shape (gaussian_smoothing gaussian_filter b sigma) = [m0, m1, m2]
       \<and> wf_array (gaussian_smoothing gaussian_filter b sigma)
       \<and> (\<forall>i<n0. \<forall>j<n1.
             data (gaussian_smoothing gaussian_filter a sigma) ! (i * n1 + j) =
               rint (\<Sum>d0 = - int (kernel_radius sigma)..int (kernel_radius sigma).
                     \<Sum>d1 = - int (kernel_radius sigma)..int (kernel_radius sigma).
                       gaussian_kernel1d sigma d0 * gaussian_kernel1d sigma d1
                         * data a ! (wrap_index n0 i d0 * n1 + wrap_index n1 j d1)))
       \<and> (\<forall>i<m0. \<forall>j<m1. \<forall>k<m2.
             data (gaussian_smoothing gaussian_filter b sigma) ! ((i * m1 + j) * m2 + k) =
               rint (\<Sum>d0 = - int (kernel_radius sigma)..int (kernel_radius sigma).
                     \<Sum>d1 = - int (kernel_radius sigma)..int (kernel_radius sigma).
                     \<Sum>d2 = - int (kernel_radius sigma)..int (kernel_radius sigma).
                       gaussian_kernel1d sigma d0 * gaussian_kernel1d sigma d1
                         * gaussian_kernel1d sigma d2
                         * data b ! ((wrap_index m0 i d0 * m1 + wrap_index m1 j d1) * m2
                                       + wrap_index m2 k d2)))
       \<and> (\<forall>d. 0 < gaussian_kernel1d sigma d
              \<and> gaussian_kernel1d sigma (- d) = gaussian_kernel1d sigma d
              \<and> gaussian_kernel1d sigma d =
                  gaussian_kernel1d sigma 0 * exp (- (of_int d)\<^sup>2 / (2 * sigma\<^sup>2)))
       \<and> (\<Sum>d = - int (kernel_radius sigma)..int (kernel_radius sigma).
             gaussian_kernel1d sigma d) = 1
       \<and> (\<forall>v. rint v \<in> \<int> \<and> \<bar>rint v - v\<bar> \<le> 1 / 2)"
proof -
  note ra = gaussian_smoothing_rounds [OF assms(2) filter_ok_gaussian_filter, where sigma = sigma]
  note rb = gaussian_smoothing_rounds [OF assms(4) filter_ok_gaussian_filter, where sigma = sigma]
  have lena: "length (data a) = n0 * n1" and lenb: "length (data b) = m0 * m1 * m2"
    using assms(2-5) by (simp_all add: wf_array_def mult.assoc)
  have c1: "shape (gaussian_smoothing gaussian_filter a sigma) = [n0, n1]"
    using ra(1) assms(3) by simp
  have c3: "shape (gaussian_smoothing gaussian_filter b sigma) = [m0, m1, m2]"
    using rb(1) assms(5) by simp
  have c5: "\<forall>i<n0. \<forall>j<n1.
             data (gaussian_smoothing gaussian_filter a sigma) ! (i * n1 + j) =
               rint (\<Sum>d0 = - int (kernel_radius sigma)..int (kernel_radius sigma).
                     \<Sum>d1 = - int (kernel_radius sigma)..int (kernel_radius sigma).
                       gaussian_kernel1d sigma d0 * gaussian_kernel1d sigma d1
                         * data a ! (wrap_index n0 i d0 * n1 + wrap_index n1 j d1))"
  proof (intro allI impI)
    fix i j assume ij: "i < n0" "j < n1"
    have "i * n1 + j < length (data a)"
      unfolding lena by (rule index_bound [OF ij(2,1)])
    from ra(3) [OF this] show "data (gaussian_smoothing gaussian_filter a sigma) ! (i * n1 + j) =
               rint (\<Sum>d0 = - int (kernel_radius sigma)..int (kernel_radius sigma).
                     \<Sum>d1 = - int (kernel_radius sigma)..int (kernel_radius sigma).
                       gaussian_kernel1d sigma d0 * gaussian_kernel1d sigma d1
                         * data a ! (wrap_index n0 i d0 * n1 + wrap_index n1 j d1))"
      by (simp only: gaussian_filter_2d [OF assms(2,3) ij])
  qed
  have c6: "\<forall>i<m0. \<forall>j<m1. \<forall>k<m2.
             data (gaussian_smoothing gaussian_filter b sigma) ! ((i * m1 + j) * m2 + k) =
               rint (\<Sum>d0 = - int (kernel_radius sigma)..int (kernel_radius sigma).
                     \<Sum>d1 = - int (kernel_radius sigma)..int (kernel_radius sigma).
                     \<Sum>d2 = - int (kernel_radius sigma)..int (kernel_radius sigma).
                       gaussian_kernel1d sigma d0 * gaussian_kernel1d sigma d1
                         * gaussian_kernel1d sigma d2
                         * data b ! ((wrap_index m0 i d0 * m1 + wrap_index m1 j d1) * m2
                                       + wrap_index m2 k d2))"
  proof (intro allI impI)
    fix i j k assume ijk: "i < m0" "j < m1" "k < m2"
    have "(i * m1 + j) * m2 + k < length (data b)"
      unfolding lenb by (rule index3_bound [OF ijk])
    from rb(3) [OF this]
    show "data (gaussian_smoothing gaussian_filter b sigma) ! ((i * m1 + j) * m2 + k) =
               rint (\<Sum>d0 = - int (kernel_radius sigma)..int (kernel_radius sigma).
                     \<Sum>d1 = - int (kernel_radius sigma)..int (kernel_radius sigma).
                     \<Sum>d2 = - int (kernel_radius sigma)..int (kernel_radius sigma).
                       gaussian_kernel1d sigma d0 * gaussian_kernel1d sigma d1
                         * gaussian_kernel1d sigma d2
                         * data b ! ((wrap_index m0 i d0 * m1 + wrap_index m1 j d1) * m2
                                       + wrap_index m2 k d2))"
      by (simp only: gaussian_filter_3d [OF assms(4,5) ijk])
  qed
  have c7: "\<forall>d. 0 < gaussian_kernel1d sigma d
              \<and> gaussian_kernel1d sigma (- d) = gaussian_kernel1d sigma d
              \<and> gaussian_kernel1d sigma d =
                  gaussian_kernel1d sigma 0 * exp (- (of_int d)\<^sup>2 / (2 * sigma\<^sup>2))"
    by (intro allI conjI gaussian_kernel1d_pos gaussian_kernel1d_sym gaussian_kernel1d_shape)
  have c9: "\<forall>v. rint v \<in> \<int> \<and> \<bar>rint v - v\<bar> \<le> 1 / 2"
    by (intro allI conjI rint_int rint_near)
  show ?thesis
    by (intro conjI) (fact c1, fact ra(2), fact c3, fact rb(2), fact c5, fact c6, fact c7,
      fact gaussian_kernel1d_sum, fact c9)
qed

theorem gaussian_smoothing_rounds_wrapped_blur_witness:
  "(0::real) < 1
   \<and> wf_array \<lparr>shape = [2, 2], data = [1, 0, 0, 0]\<rparr>
   \<and> shape \<lparr>shape = [2, 2], data = [1, 0, 0, 0 :: real]\<rparr> = [2, 2]
   \<and> wf_array \<lparr>shape = [2, 2, 2], data = [1, 0, 0, 0, 0, 0, 0, 1]\<rparr>
   \<and> shape \<lparr>shape = [2, 2, 2], data = [1, 0, 0, 0, 0, 0, 0, 1 :: real]\<rparr> = [2, 2, 2]
   \<and> shape (gaussian_smoothing gaussian_filter \<lparr>shape = [2, 2], data = [1, 0, 0, 0]\<rparr> 1) = [2, 2]
   \<and> data (gaussian_smoothing gaussian_filter \<lparr>shape = [2, 2], data = [1, 0, 0, 0]\<rparr> 1)
         ! (1 * 2 + 0) =
         rint (\<Sum>d0 = - int (kernel_radius 1)..int (kernel_radius 1).
               \<Sum>d1 = - int (kernel_radius 1)..int (kernel_radius 1).
                 gaussian_kernel1d 1 d0 * gaussian_kernel1d 1 d1
                   * data \<lparr>shape = [2, 2], data = [1, 0, 0, 0]\<rparr>
                       ! (wrap_index 2 1 d0 * 2 + wrap_index 2 0 d1))
   \<and> shape (gaussian_smoothing gaussian_filter
               \<lparr>shape = [2, 2, 2], data = [1, 0, 0, 0, 0, 0, 0, 1]\<rparr> 1) = [2, 2, 2]
   \<and> data (gaussian_smoothing gaussian_filter
               \<lparr>shape = [2, 2, 2], data = [1, 0, 0, 0, 0, 0, 0, 1]\<rparr> 1)
         ! ((1 * 2 + 0) * 2 + 1) =
         rint (\<Sum>d0 = - int (kernel_radius 1)..int (kernel_radius 1).
               \<Sum>d1 = - int (kernel_radius 1)..int (kernel_radius 1).
               \<Sum>d2 = - int (kernel_radius 1)..int (kernel_radius 1).
                 gaussian_kernel1d 1 d0 * gaussian_kernel1d 1 d1 * gaussian_kernel1d 1 d2
                   * data \<lparr>shape = [2, 2, 2], data = [1, 0, 0, 0, 0, 0, 0, 1]\<rparr>
                       ! ((wrap_index 2 1 d0 * 2 + wrap_index 2 0 d1) * 2 + wrap_index 2 1 d2))
   \<and> kernel_radius 1 = 4
   \<and> (\<Sum>d = - int (kernel_radius 1)..int (kernel_radius 1). gaussian_kernel1d 1 d) = 1"
proof -
  let ?a = "\<lparr>shape = [2, 2], data = [1, 0, 0, 0 :: real]\<rparr>"
  let ?b = "\<lparr>shape = [2, 2, 2], data = [1, 0, 0, 0, 0, 0, 0, 1 :: real]\<rparr>"
  have h1: "(0::real) < 1" by simp
  have h2: "wf_array ?a" by (simp add: wf_array_def)
  have h3: "shape ?a = [2, 2]" by simp
  have h4: "wf_array ?b" by (simp add: wf_array_def)
  have h5: "shape ?b = [2, 2, 2]" by simp
  note c = gaussian_smoothing_rounds_wrapped_blur [OF h1 h2 h3 h4 h5]
  have r: "kernel_radius 1 = 4" by (simp add: kernel_radius_def)
  note c1 = c [THEN conjunct1]
  note c3 = c [THEN conjunct2, THEN conjunct2, THEN conjunct1]
  note c5 = c [THEN conjunct2, THEN conjunct2, THEN conjunct2, THEN conjunct2, THEN conjunct1,
    rule_format, of 1 0]
  note c6 = c [THEN conjunct2, THEN conjunct2, THEN conjunct2, THEN conjunct2, THEN conjunct2,
    THEN conjunct1, rule_format, of 1 0 1]
  note c8 = c [THEN conjunct2, THEN conjunct2, THEN conjunct2, THEN conjunct2, THEN conjunct2,
    THEN conjunct2, THEN conjunct2, THEN conjunct1]
  have e5: "data (gaussian_smoothing gaussian_filter ?a 1) ! (1 * 2 + 0) =
         rint (\<Sum>d0 = - int (kernel_radius 1)..int (kernel_radius 1).
               \<Sum>d1 = - int (kernel_radius 1)..int (kernel_radius 1).
                 gaussian_kernel1d 1 d0 * gaussian_kernel1d 1 d1
                   * data ?a ! (wrap_index 2 1 d0 * 2 + wrap_index 2 0 d1))"
    by (rule c5) simp_all
  have e6: "data (gaussian_smoothing gaussian_filter ?b 1) ! ((1 * 2 + 0) * 2 + 1) =
         rint (\<Sum>d0 = - int (kernel_radius 1)..int (kernel_radius 1).
               \<Sum>d1 = - int (kernel_radius 1)..int (kernel_radius 1).
               \<Sum>d2 = - int (kernel_radius 1)..int (kernel_radius 1).
                 gaussian_kernel1d 1 d0 * gaussian_kernel1d 1 d1 * gaussian_kernel1d 1 d2
                   * data ?b ! ((wrap_index 2 1 d0 * 2 + wrap_index 2 0 d1) * 2 + wrap_index 2 1 d2))"
    by (rule c6) simp_all
  show ?thesis
    by (intro conjI) (fact h1, fact h2, fact h3, fact h4, fact h5, fact c1, fact e5, fact c3,
      fact e6, fact r, fact c8)
qed

section \<open>Integer values and the uniform field\<close>

lemma nth_data_slices:
  assumes "wf_array out" "shape out = sp @ [P]" "j < length (data out)"
  shows "j div P < prod_list sp \<and> j mod P < P
       \<and> data out ! j = data (getitem_last out (j mod P)) ! (j div P)"
proof -
  have len: "length (data out) = prod_list sp * P"
    using assms(1,2) by (simp add: wf_array_def)
  then have P: "0 < P" using assms(3) by (cases P) simp_all
  have i: "j div P < prod_list sp"
    using assms(3) len P by (simp add: less_mult_imp_div_less)
  have p: "j mod P < P" using P by simp
  have "data (getitem_last out (j mod P)) ! (j div P) = data out ! (j div P * P + j mod P)"
    using i assms(2) by (simp add: getitem_last_def)
  then show ?thesis using i p by simp
qed

lemma np_round_zeros: "np_round (np_zeros shp) = np_zeros shp"
  by (simp add: np_round_def np_zeros_def rint_def)

lemma gaussian_smoothing_zeros:
  "filter_zero gf \<Longrightarrow> gaussian_smoothing gf (np_zeros shp) sigma = np_zeros shp"
  by (simp add: gaussian_smoothing_def filter_zero_def np_round_zeros)

lemma uniform_slices:
  assumes "wf_array enc" "shape enc = sp @ [P]" "uniform_single_phase enc k" "q < P"
  shows "getitem_last enc q =
           \<lparr>shape = sp, data = replicate (prod_list sp) (if q = k then 1 else 0)\<rparr>"
proof -
  have len: "length (data enc) = prod_list sp * P"
    using assms(1,2) by (simp add: wf_array_def)
  have d: "data enc = map (\<lambda>j. if j mod P = k then 1 else 0) [0..<prod_list sp * P]"
    using assms(2,3) len by (simp add: uniform_single_phase_def)
  have "data enc ! (i * P + q) = (if q = k then 1 else 0)" if "i < prod_list sp" for i
  proof -
    have "i * P + q < prod_list sp * P"
      by (rule index_bound [OF assms(4) that])
    then have "data enc ! (i * P + q) = (if (i * P + q) mod P = k then 1 else 0)"
      by (subst d) simp
    then show ?thesis using assms(4) by simp
  qed
  then have "map (\<lambda>i. data enc ! (i * P + q)) [0..<prod_list sp]
               = map (\<lambda>i. if q = k then 1 else 0) [0..<prod_list sp]"
    by (intro map_cong) simp_all
  also have "\<dots> = replicate (prod_list sp) (if q = k then 1 else 0)"
    by (simp add: map_replicate_const)
  finally show ?thesis
    using assms(2) by (simp add: getitem_last_def)
qed

text \<open>
  C7: on a well-formed microstructure whose encoding is 1 for one phase at every
  location and 0 for every other phase, \<open>smooth\<close> with the method \<open>gaussian\<close>, for a library
  filter that keeps shapes and blurs the zero field to the zero field, succeeds and
  leaves the microstructure as it was.
\<close>

theorem smooth_uniform_single_phase_unchanged:
  assumes "wf_ms ms" and "has_phases ms" and "filter_ok gf" and "filter_zero gf"
    and "k < num_phases ms" and "uniform_single_phase (encoding ms) k"
  shows "smooth gf ms ''gaussian'' sigma = (Inr (), ms)"
proof -
  let ?sp = "spatial_shape ms" and ?P = "num_phases ms"
  let ?n = "prod_list (spatial_shape ms)"
  let ?enc = "\<lparr>shape = ?sp @ [?P], data = data (encoding ms)\<rparr>"
  let ?f = "gaussian_smoothing gf"
  have P: "0 < ?P" using assms(5) by simp
  from smooth_gaussian_ok [OF assms(3,1,2) P, of sigma]
  obtain L out where r: "np_argmax (volume_fractions ?enc) = Inr L" "L < ?P"
     "smooth gf ms ''gaussian'' sigma =
         (Inr (), ms\<lparr>encoding := \<lparr>shape = shape (encoding ms), data = data out\<rparr>\<rparr>)"
     "wf_array out" "shape out = ?sp @ [?P]"
     "\<forall>q<?P. getitem_last out q =
            (if q = L then complement_of_others ?f sigma ?enc L
             else ?f (getitem_last ?enc q) sigma)"
    by blast
  have shx: "shape (encoding ms) = 1 # ?sp @ [?P]"
    and lenx: "length (data (encoding ms)) = ?n * ?P"
    using assms(1) by (simp_all add: wf_ms_def wf_array_def)
  have wfe: "wf_array ?enc" and she: "shape ?enc = ?sp @ [?P]"
    using lenx by (simp_all add: wf_array_def)
  have une: "uniform_single_phase ?enc k"
    using assms(6) shx by (simp add: uniform_single_phase_def)
  note sl = uniform_slices [OF wfe she une]
  have leno: "length (data out) = ?n * ?P"
    using r(4,5) by (simp add: wf_array_def)
  have "data out = data (encoding ms)"
  proof (cases "?n = 0")
    case True
    then show ?thesis using leno lenx by simp
  next
    case False
    have vf: "volume_fractions ?enc ! q = (if q = k then 1 else 0)" if "q < ?P" for q
      using that False sl [OF that] by (simp add: volume_fractions_def np_average_def sum_list_replicate)
    have len: "length (volume_fractions ?enc) = ?P"
      by (simp add: volume_fractions_def)
    then have "volume_fractions ?enc \<noteq> []" using P by auto
    from np_argmax_first_max [OF this] r(1) len
    have "volume_fractions ?enc ! k \<le> volume_fractions ?enc ! L"
      using assms(5) by auto
    then have L: "L = k"
      using vf [OF assms(5)] vf [OF r(2)] by (auto split: if_splits)
    have zero: "?f (getitem_last ?enc q) sigma = np_zeros ?sp" if "q < ?P" "q \<noteq> k" for q
    proof -
      have "getitem_last ?enc q = np_zeros ?sp"
        using sl [OF that(1)] that(2) by (simp add: np_zeros_def)
      then show ?thesis
        by (simp add: gaussian_smoothing_zeros [OF assms(4)])
    qed
    have others: "sum_of_others ?f sigma ?enc k i = 0" if "i < ?n" for i
    proof -
      have m: "map (\<lambda>phase. data (?f (getitem_last ?enc phase) sigma) ! i)
                (filter (\<lambda>phase. phase \<noteq> k) [0..<?P])
              = map (\<lambda>phase. 0) (filter (\<lambda>phase. phase \<noteq> k) [0..<?P])"
        by (rule map_cong) (use zero that in \<open>auto simp: np_zeros_def\<close>)
      have "sum_of_others ?f sigma ?enc k i =
              sum_list (map (\<lambda>phase. data (?f (getitem_last ?enc phase) sigma) ! i)
                         (filter (\<lambda>phase. phase \<noteq> k) [0..<?P]))"
        by (simp add: sum_of_others_def)
      also have "\<dots> = sum_list (map (\<lambda>phase. 0) (filter (\<lambda>phase. phase \<noteq> k) [0..<?P]))"
        by (simp only: m)
      also have "\<dots> = 0"
        by simp
      finally show ?thesis .
    qed
    have dx: "data (encoding ms) ! j = (if j mod ?P = k then 1 else 0)"
      if "j < ?n * ?P" for j
    proof -
      have d: "data (encoding ms) = map (\<lambda>j. if j mod ?P = k then 1 else 0) [0..<?n * ?P]"
        using assms(6) shx lenx by (simp add: uniform_single_phase_def)
      show ?thesis by (subst d) (simp add: that)
    qed
    show ?thesis
    proof (rule nth_equalityI)
      show "length (data out) = length (data (encoding ms))"
        using leno lenx by simp
    next
      fix j assume "j < length (data out)"
      then have j: "j < length (data out)" .
      from nth_data_slices [OF r(4,5) j]
      have s: "j div ?P < ?n" "j mod ?P < ?P"
        "data out ! j = data (getitem_last out (j mod ?P)) ! (j div ?P)"
        by simp_all
      have "data (getitem_last out (j mod ?P)) ! (j div ?P) = (if j mod ?P = k then 1 else 0)"
      proof (cases "j mod ?P = k")
        case True
        then have "getitem_last out (j mod ?P) = complement_of_others ?f sigma ?enc k"
          using r(6) s(2) L by simp
        then show ?thesis
          using True s(1) others [OF s(1)] by (simp add: complement_of_others_def)
      next
        case neq: False
        then have "getitem_last out (j mod ?P) = np_zeros ?sp"
          using r(6) s(2) L zero [OF s(2) neq] by simp
        then show ?thesis
          using neq s(1) by (simp add: np_zeros_def)
      qed
      then show "data out ! j = data (encoding ms) ! j"
        using s(3) dx j leno by simp
    qed
  qed
  then show ?thesis
    using r(3) by simp
qed

theorem smooth_uniform_single_phase_unchanged_witness:
  "wf_ms ms_uniform \<and> has_phases ms_uniform \<and> filter_ok wrap_blur3 \<and> filter_zero wrap_blur3
   \<and> 1 < num_phases ms_uniform \<and> uniform_single_phase (encoding ms_uniform) 1
   \<and> smooth wrap_blur3 ms_uniform ''gaussian'' 1 = (Inr (), ms_uniform)"
proof -
  have h1: "wf_ms ms_uniform" by (rule wf_ms_uniform)
  have h2: "has_phases ms_uniform" by (simp add: ms_uniform_def)
  have h5: "1 < num_phases ms_uniform" by (simp add: ms_uniform_def num_phases_def)
  have h6: "uniform_single_phase (encoding ms_uniform) 1" by code_simp
  note c = smooth_uniform_single_phase_unchanged
    [OF h1 h2 filter_ok_wrap_blur3 filter_zero_wrap_blur3 h5 h6, of 1]
  show ?thesis
    by (intro conjI)
       (fact h1, fact h2, fact filter_ok_wrap_blur3, fact filter_zero_wrap_blur3, fact h5,
        fact h6, fact c)
qed

section \<open>The smoother in float64\<close>



lemma binary_exponent_bounds:
  assumes "0 < x"
  shows "pow2 (binary_exponent x) \<le> x \<and> x < pow2 (binary_exponent x + 1)"
proof (cases "1 \<le> x")
  case True
  let ?a = "\<lfloor>x\<rfloor>"
  have a: "0 < ?a" using True by linarith
  from bitlen_bounds [OF a] have b: "2 ^ nat (bitlen ?a - 1) \<le> ?a" "?a < 2 ^ nat (bitlen ?a)"
    by simp_all
  have ge1: "1 \<le> bitlen ?a" using a by (auto simp: bitlen_alt_def)
  have "(2::real) ^ nat (bitlen ?a - 1) \<le> of_int ?a"
    using b(1) by (metis of_int_le_iff of_int_numeral of_int_power)
  then have lo: "2 ^ nat (bitlen ?a - 1) \<le> x" by linarith
  have "?a + 1 \<le> 2 ^ nat (bitlen ?a)" using b(2) by simp
  then have "of_int (?a + 1) \<le> (2::real) ^ nat (bitlen ?a)"
    by (metis of_int_le_iff of_int_numeral of_int_power)
  then have hi: "x < 2 ^ nat (bitlen ?a)" by linarith
  show ?thesis
    using True ge1 lo hi by (simp add: binary_exponent_def pow2_def)
next
  case False
  let ?y = "1 / x"
  let ?b = "\<lceil>?y\<rceil> - 1"
  have y: "1 < ?y" using False assms by simp
  have b: "0 < ?b" using y by linarith
  from bitlen_bounds [OF b] have bb: "2 ^ nat (bitlen ?b - 1) \<le> ?b" "?b < 2 ^ nat (bitlen ?b)"
    by simp_all
  have ge1: "1 \<le> bitlen ?b" using b by (auto simp: bitlen_alt_def)
  have "(2::real) ^ nat (bitlen ?b - 1) \<le> of_int ?b"
    using bb(1) by (metis of_int_le_iff of_int_numeral of_int_power)
  moreover have "of_int ?b < ?y" by linarith
  ultimately have lo: "2 ^ nat (bitlen ?b - 1) < ?y" by linarith
  have "?b + 1 \<le> 2 ^ nat (bitlen ?b)" using bb(2) by simp
  then have "of_int (?b + 1) \<le> (2::real) ^ nat (bitlen ?b)"
    by (metis of_int_le_iff of_int_numeral of_int_power)
  moreover have "?y \<le> of_int (?b + 1)" by simp
  ultimately have hi: "?y \<le> 2 ^ nat (bitlen ?b)" by linarith
  have x_lo: "1 / 2 ^ nat (bitlen ?b) \<le> x"
    using hi assms by (simp add: field_simps)
  have x_hi: "x < 1 / 2 ^ nat (bitlen ?b - 1)"
    using lo assms by (simp add: field_simps)
  have e: "binary_exponent x = - bitlen ?b"
    using False by (simp add: binary_exponent_def)
  have p1: "pow2 (- bitlen ?b) = 1 / 2 ^ nat (bitlen ?b)"
    using ge1 by (simp add: pow2_def)
  have p2: "pow2 (- bitlen ?b + 1) = 1 / 2 ^ nat (bitlen ?b - 1)"
  proof (cases "bitlen ?b = 1")
    case True
    then show ?thesis by (simp add: pow2_def)
  next
    case False
    then have "1 < bitlen ?b" using ge1 by simp
    then show ?thesis by (simp add: pow2_def)
  qed
  show ?thesis
    unfolding e p1 p2 using x_lo x_hi by simp
qed



lemma float64_round_lossy: "float64_round (1 / 10) \<noteq> 1 / 10"
  by code_simp












text \<open>
  The rounding of the filter output is what this rests on: with a filter that does not
  round, the float64 sum across the phases can miss 1.
\<close>

lemma float64_sum_without_rounding:
  "(case smooth_multiphase_f64 np_average (encoding ms_fraction) ms_fraction (\<lambda>a s. a) 1 of
      Inl e \<Rightarrow> False
    | Inr r \<Rightarrow> phase_sum_f64 r 0 = 1 - 1 / 2 ^ 53)"
  by code_simp

lemma smooth_f64_ms_grid:
  "smooth_f64 np_average wrap_blur3 ms_grid ''gaussian'' 1 =
     (Inr (), ms_grid\<lparr>encoding := \<lparr>shape = [1, 2, 2, 3],
                                    data = [1, 0, 0, 1, 0, 0, 1, 0, 0, 1, 0, 0]\<rparr>\<rparr>)"
  by code_simp


end
